theory Spec2Isabelle
  imports Main "HOL-Library.Char_ord" "HOL-Library.Sublist"
begin

section \<open>Tokens (package token)\<close>

text \<open>
  \<open>TokenType\<close> is a Go string type with a fixed set of declared constants. The model
  is an enumeration of these constants, together with \<open>NoType\<close> for the empty string,
  the zero value that a freshly allocated \<open>Token\<close> carries. \<open>TokenType_text\<close> gives
  the Go string behind each constant (what \<open>%s\<close> prints).
\<close>

datatype TokenType =
    NoType
  | Tok_Identifier | Tok_Number | Tok_String
  | Def | Extern
  | LeftParen | RightParen | LeftCurlyBracket | RightCurlyBracket
  | LeftSquareBracket | RightSquareBracket
  | Semicolon | Comma | Colon | Dot
  | Plus | Minus | Slash | Star | Modulo | Assign | GreaterThan | LessThan | Bang
  | EqualTo | GreaterThanEqualTo | LessThanEqualTo | NotEqualTo | And | Or
  | EOF | Illegal

fun TokenType_text :: "TokenType \<Rightarrow> string" where
  "TokenType_text NoType = ''''"
| "TokenType_text Tok_Identifier = ''Identifier''"
| "TokenType_text Tok_Number = ''Number''"
| "TokenType_text Tok_String = ''String''"
| "TokenType_text Def = ''Def''"
| "TokenType_text Extern = ''Extern''"
| "TokenType_text LeftParen = ''LeftParen''"
| "TokenType_text RightParen = ''RightParen''"
| "TokenType_text LeftCurlyBracket = ''LeftCurlyBracket''"
| "TokenType_text RightCurlyBracket = ''RightCurlyBracket''"
| "TokenType_text LeftSquareBracket = ''LeftSquareBracket''"
| "TokenType_text RightSquareBracket = ''RightSquareBracket''"
| "TokenType_text Semicolon = ''Semicolon''"
| "TokenType_text Comma = ''Comma''"
| "TokenType_text Colon = ''Colon''"
| "TokenType_text Dot = ''Dot''"
| "TokenType_text Plus = ''Plus''"
| "TokenType_text Minus = ''Minus''"
| "TokenType_text Slash = ''Slash''"
| "TokenType_text Star = ''Star''"
| "TokenType_text Modulo = ''Modulus''"
| "TokenType_text Assign = ''Assign''"
| "TokenType_text GreaterThan = ''GreaterThan''"
| "TokenType_text LessThan = ''LessThan''"
| "TokenType_text Bang = ''Bang''"
| "TokenType_text EqualTo = ''Equality''"
| "TokenType_text GreaterThanEqualTo = ''GreaterThanEqualTo''"
| "TokenType_text LessThanEqualTo = ''LessThanEqualTo''"
| "TokenType_text NotEqualTo = ''NotEqual''"
| "TokenType_text And = ''And''"
| "TokenType_text Or = ''Or''"
| "TokenType_text EOF = ''EOF''"
| "TokenType_text Illegal = ''Illegal''"

record Token =
  Literal :: string
  Type :: TokenType

text \<open>
  Go's conversion \<open>string(b)\<close> of a byte \<open>b\<close> yields the UTF-8 encoding of the code
  point \<open>b\<close>: one byte below 128, two bytes from 128 on.
\<close>

definition string_of_byte :: "char \<Rightarrow> string" where
  "string_of_byte c =
     (let n = (of_char c :: nat)
      in if n < 128 then [c] else [char_of (192 + n div 64), char_of (128 + n mod 64)])"

definition MakeToken :: "TokenType \<Rightarrow> char \<Rightarrow> Token" where
  "MakeToken T c = \<lparr>Literal = string_of_byte c, Type = T\<rparr>"

section \<open>Character classes (package utils)\<close>

text \<open>
  The regular expressions \<open>^[a-zA-Z_]+$\<close> and \<open>^[0-9]+$\<close> are matched against the
  one-symbol string of the byte; a byte from 128 on becomes a two-byte string that
  neither class matches.
\<close>

definition IsAlpha :: "char \<Rightarrow> bool" where
  "IsAlpha c \<longleftrightarrow>
     (CHR ''a'' \<le> c \<and> c \<le> CHR ''z'') \<or> (CHR ''A'' \<le> c \<and> c \<le> CHR ''Z'') \<or> c = CHR ''_''"

definition IsNumeric :: "char \<Rightarrow> bool" where
  "IsNumeric c \<longleftrightarrow> CHR ''0'' \<le> c \<and> c \<le> CHR ''9''"

definition IsSkipable :: "char \<Rightarrow> bool" where
  "IsSkipable c \<longleftrightarrow> c = CHR '' '' \<or> c = CHR 0x0A \<or> c = CHR 0x09 \<or> c = CHR 0x0D"

section \<open>The lexer (package lexer)\<close>

record Lexer =
  source :: string
  position :: nat
  readPosition :: nat
  char :: char

abbreviation eqSym :: char where "eqSym \<equiv> CHR ''=''"
abbreviation dot :: char where "dot \<equiv> CHR ''.''"
abbreviation quote :: char where "quote \<equiv> CHR 0x22"
abbreviation ampersand :: char where "ampersand \<equiv> CHR ''&''"
abbreviation pipe :: char where "pipe \<equiv> CHR ''|''"
abbreviation NUL :: char where "NUL \<equiv> CHR 0x00"

definition readChar :: "Lexer \<Rightarrow> Lexer" where
  "readChar l =
     l\<lparr>char := (if length (source l) \<le> readPosition l then NUL
                else source l ! readPosition l),
       position := readPosition l,
       readPosition := readPosition l + 1\<rparr>"

definition lexer_New :: "string \<Rightarrow> Lexer" where
  "lexer_New src = readChar \<lparr>source = src, position = 0, readPosition = 0, char = NUL\<rparr>"

text \<open>
  A Go slice expression \<open>s[lo:hi]\<close> panics unless \<open>lo \<le> hi \<le> len(s)\<close>; \<open>None\<close> is
  the panic.
\<close>

definition slice :: "string \<Rightarrow> nat \<Rightarrow> nat \<Rightarrow> string option" where
  "slice s lo hi = (if lo \<le> hi \<and> hi \<le> length s then Some (take (hi - lo) (drop lo s)) else None)"

text \<open>The three scanning loops. Each stops at the latest on the end sentinel.\<close>

function readIdentifer_loop :: "Lexer \<Rightarrow> Lexer" where
  "readIdentifer_loop l = (if IsAlpha (char l) then readIdentifer_loop (readChar l) else l)"
  by pat_completeness auto
termination
  by (relation "measure (\<lambda>l. (length (source l) - readPosition l) + (if IsAlpha (char l) then 1 else 0))")
     (auto simp: readChar_def IsAlpha_def)

definition readIdentifer :: "Lexer \<Rightarrow> (string \<times> Lexer) option" where
  "readIdentifer l =
     (let pos = position l; l' = readIdentifer_loop l
      in case slice (source l') pos (position l') of
           None \<Rightarrow> None
         | Some s \<Rightarrow> Some (s, l'))"

function readNumber_loop :: "Lexer \<Rightarrow> Lexer" where
  "readNumber_loop l =
     (if IsNumeric (char l) \<or> char l = dot then readNumber_loop (readChar l) else l)"
  by pat_completeness auto
termination
  by (relation "measure (\<lambda>l. (length (source l) - readPosition l)
                   + (if IsNumeric (char l) \<or> char l = dot then 1 else 0))")
     (auto simp: readChar_def IsNumeric_def)

definition readNumber :: "Lexer \<Rightarrow> (string \<times> Lexer) option" where
  "readNumber l =
     (let pos = position l; l' = readNumber_loop l
      in case slice (source l') pos (position l') of
           None \<Rightarrow> None
         | Some s \<Rightarrow> Some (s, l'))"

function readString_loop :: "Lexer \<Rightarrow> Lexer" where
  "readString_loop l =
     (let l' = readChar l
      in if char l' = quote \<or> char l' = NUL then l' else readString_loop l')"
  by pat_completeness auto
termination
  by (relation "measure (\<lambda>l. length (source l) - readPosition l)")
     (auto simp: readChar_def Let_def split: if_splits)

definition readString :: "Lexer \<Rightarrow> (string \<times> Lexer) option" where
  "readString l =
     (let pos = position l + 1; l' = readString_loop l
      in case slice (source l') pos (position l') of
           None \<Rightarrow> None
         | Some s \<Rightarrow> Some (s, l'))"

function skipWhitespace :: "Lexer \<Rightarrow> Lexer" where
  "skipWhitespace l =
     (if char l = CHR '' '' \<or> char l = CHR 0x09 \<or> char l = CHR 0x0A \<or> char l = CHR 0x0D
      then skipWhitespace (readChar l) else l)"
  by pat_completeness auto
termination
  by (relation "measure (\<lambda>l. (length (source l) - readPosition l) + (if IsSkipable (char l) then 1 else 0))")
     (auto simp: readChar_def IsSkipable_def)

declare readIdentifer_loop.simps [simp del] readNumber_loop.simps [simp del]
  readString_loop.simps [simp del] skipWhitespace.simps [simp del]

definition peekChar :: "Lexer \<Rightarrow> char" where
  "peekChar l = (if length (source l) \<le> readPosition l then NUL else source l ! readPosition l)"

definition LookupIdent :: "string \<Rightarrow> TokenType" where
  "LookupIdent ident =
     (case map_of [(''def'', Def), (''extern'', Extern)] ident of
        Some tok \<Rightarrow> tok
      | None \<Rightarrow> Tok_Identifier)"

text \<open>
  The branches for the two-symbol operators all have one shape: when the next symbol is
  \<open>second\<close>, read it and return the two symbols with the type \<open>both\<close>; otherwise return
  the single symbol with the type \<open>single\<close>.
\<close>

definition twoChar :: "char \<Rightarrow> TokenType \<Rightarrow> TokenType \<Rightarrow> Lexer \<Rightarrow> Token \<times> Lexer" where
  "twoChar second both single l =
     (if peekChar l = second
      then (let c = char l; l' = readChar l
            in (\<lparr>Literal = string_of_byte c @ string_of_byte (char l'), Type = both\<rparr>, l'))
      else (MakeToken single (char l), l))"

definition NextToken :: "Lexer \<Rightarrow> (Token \<times> Lexer) option" where
  "NextToken l0 =
     (let l = skipWhitespace l0; c = char l;
          single = (\<lambda>T. Some (MakeToken T c, readChar l));
          double = (\<lambda>second both one. case twoChar second both one l of (tok, l') \<Rightarrow> Some (tok, readChar l'))
      in if c = CHR ''('' then single LeftParen
         else if c = CHR '')'' then single RightParen
         else if c = CHR ''{'' then single LeftCurlyBracket
         else if c = CHR ''}'' then single RightCurlyBracket
         else if c = CHR ''['' then single LeftSquareBracket
         else if c = CHR '']'' then single RightSquareBracket
         else if c = CHR '';'' then single Semicolon
         else if c = CHR '','' then single Comma
         else if c = CHR '':'' then single Colon
         else if c = dot then single Dot
         else if c = quote then
           (case readString l of
              None \<Rightarrow> None
            | Some (s, l') \<Rightarrow> Some (\<lparr>Literal = s, Type = Tok_String\<rparr>, readChar l'))
         else if c = eqSym then double eqSym EqualTo Assign
         else if c = CHR ''+'' then single Plus
         else if c = CHR ''-'' then single Minus
         else if c = CHR ''*'' then single Star
         else if c = CHR ''/'' then single Slash
         else if c = CHR ''%'' then single Modulo
         else if c = CHR ''>'' then double eqSym GreaterThanEqualTo GreaterThan
         else if c = CHR ''<'' then double eqSym LessThanEqualTo LessThan
         else if c = CHR ''!'' then double eqSym NotEqualTo Bang
         else if c = ampersand then double ampersand And Illegal
         else if c = pipe then double pipe Or Illegal
         else if c = NUL then Some (\<lparr>Literal = '''', Type = EOF\<rparr>, readChar l)
         else if IsAlpha c then
           (case readIdentifer l of
              None \<Rightarrow> None
            | Some (s, l') \<Rightarrow> Some (\<lparr>Literal = s, Type = LookupIdent s\<rparr>, l'))
         else if IsNumeric c then
           (case readNumber l of
              None \<Rightarrow> None
            | Some (s, l') \<Rightarrow> Some (\<lparr>Literal = s, Type = Tok_Number\<rparr>, l'))
         else single Illegal)"

section \<open>The syntax tree (package ast)\<close>

text \<open>
  An expression held through the \<open>Expr\<close> interface may be nil: \<open>None\<close>. The type
  parameter \<open>'f\<close> stands for \<open>float64\<close>. A nil slice and an empty slice behave alike
  under \<open>range\<close>, \<open>len\<close> and \<open>append\<close>, the only operations applied to argument
  lists; both are the empty list.
\<close>

datatype 'f Expr =
    NumberLiteral Token 'f
  | Identifier Token string
  | PrefixExpr Token string "'f Expr option"
  | InfixExpr Token "'f Expr option" string "'f Expr option"
  | CallExpr Token "'f Expr option" "'f Expr option list"

datatype 'f Stmt = ExpressionStmt Token "'f Expr option"

record 'f Program =
  Stmts :: "'f Stmt list"

fun Join :: "string list \<Rightarrow> string \<Rightarrow> string" where
  "Join [] sep = []"
| "Join [x] sep = x"
| "Join (x # y # ys) sep = x @ sep @ Join (y # ys) sep"

text \<open>
  Rendering. Calling \<open>String()\<close> on a nil interface value is a run-time panic: \<open>None\<close>.
\<close>

fun Expr_String :: "'f Expr \<Rightarrow> string option" where
  "Expr_String (NumberLiteral tok v) = Some (Literal tok)"
| "Expr_String (Identifier tok v) = Some v"
| "Expr_String (PrefixExpr tok operator right) =
     (case Option.bind right Expr_String of
        None \<Rightarrow> None
      | Some r \<Rightarrow> Some (''('' @ operator @ r @ '')''))"
| "Expr_String (InfixExpr tok left operator right) =
     (case Option.bind left Expr_String of
        None \<Rightarrow> None
      | Some l \<Rightarrow>
          (case Option.bind right Expr_String of
             None \<Rightarrow> None
           | Some r \<Rightarrow> Some (''('' @ l @ '' '' @ operator @ '' '' @ r @ '')'')))"
| "Expr_String (CallExpr tok function arguments) =
     (case those (map (\<lambda>arg. Option.bind arg Expr_String) arguments) of
        None \<Rightarrow> None
      | Some args \<Rightarrow>
          (case Option.bind function Expr_String of
             None \<Rightarrow> None
           | Some f \<Rightarrow> Some (f @ ''('' @ Join args '', '' @ '')'')))"

fun Stmt_String :: "'f Stmt \<Rightarrow> string option" where
  "Stmt_String (ExpressionStmt tok None) = Some []"
| "Stmt_String (ExpressionStmt tok (Some e)) = Expr_String e"

definition Program_String :: "'f Program \<Rightarrow> string option" where
  "Program_String p = map_option concat (those (map Stmt_String (Stmts p)))"

section \<open>The parser (package parser)\<close>

type_synonym Precedence = int

definition LOWEST :: Precedence where "LOWEST = 0 + 1"
definition ANDOR :: Precedence where "ANDOR = 1 + 1"
definition EQUALS :: Precedence where "EQUALS = 2 + 1"
definition LESSGREATEREQUAL :: Precedence where "LESSGREATEREQUAL = 3 + 1"
definition LESSGREATER :: Precedence where "LESSGREATER = 4 + 1"
definition SUM_prec :: Precedence where "SUM_prec = 5 + 1"
definition PRODUCT :: Precedence where "PRODUCT = 6 + 1"
definition PREFIX :: Precedence where "PREFIX = 7 + 1"
definition CALL :: Precedence where "CALL = 8 + 1"
definition INDEX :: Precedence where "INDEX = 9 + 1"

fun precedences :: "TokenType \<Rightarrow> Precedence option" where
  "precedences And = Some ANDOR"
| "precedences Or = Some ANDOR"
| "precedences EqualTo = Some EQUALS"
| "precedences NotEqualTo = Some EQUALS"
| "precedences LessThan = Some LESSGREATER"
| "precedences GreaterThan = Some LESSGREATER"
| "precedences GreaterThanEqualTo = Some LESSGREATEREQUAL"
| "precedences LessThanEqualTo = Some LESSGREATEREQUAL"
| "precedences Plus = Some SUM_prec"
| "precedences Minus = Some SUM_prec"
| "precedences Slash = Some PRODUCT"
| "precedences Star = Some PRODUCT"
| "precedences Modulo = Some PRODUCT"
| "precedences LeftParen = Some CALL"
| "precedences LeftSquareBracket = Some INDEX"
| "precedences _ = None"

text \<open>
  The two registries are filled once, in \<open>New\<close>, and never written again; they are
  modelled as the tables that \<open>New\<close> builds, with a name for each registered method.
\<close>

datatype prefixParseFn =
  Fn_parseIdentifier | Fn_parseNumberLiteral | Fn_parsePrefixExpr | Fn_parseGroupedExpr

datatype infixParseFn = Fn_parseInfixExpr | Fn_parseCallExpr

fun prefixParseFns :: "TokenType \<Rightarrow> prefixParseFn option" where
  "prefixParseFns Tok_Identifier = Some Fn_parseIdentifier"
| "prefixParseFns Tok_Number = Some Fn_parseNumberLiteral"
| "prefixParseFns Bang = Some Fn_parsePrefixExpr"
| "prefixParseFns Minus = Some Fn_parsePrefixExpr"
| "prefixParseFns LeftParen = Some Fn_parseGroupedExpr"
| "prefixParseFns _ = None"

fun infixParseFns :: "TokenType \<Rightarrow> infixParseFn option" where
  "infixParseFns Plus = Some Fn_parseInfixExpr"
| "infixParseFns Minus = Some Fn_parseInfixExpr"
| "infixParseFns Slash = Some Fn_parseInfixExpr"
| "infixParseFns Star = Some Fn_parseInfixExpr"
| "infixParseFns Modulo = Some Fn_parseInfixExpr"
| "infixParseFns EqualTo = Some Fn_parseInfixExpr"
| "infixParseFns NotEqualTo = Some Fn_parseInfixExpr"
| "infixParseFns GreaterThanEqualTo = Some Fn_parseInfixExpr"
| "infixParseFns LessThanEqualTo = Some Fn_parseInfixExpr"
| "infixParseFns GreaterThan = Some Fn_parseInfixExpr"
| "infixParseFns LessThan = Some Fn_parseInfixExpr"
| "infixParseFns And = Some Fn_parseInfixExpr"
| "infixParseFns Or = Some Fn_parseInfixExpr"
| "infixParseFns LeftParen = Some Fn_parseCallExpr"
| "infixParseFns _ = None"

record Parser =
  lexer :: Lexer
  currToken :: Token
  peekToken :: Token
  errors :: "string list"

text \<open>
  What a parser method does: it returns, or a panic of the lexer ends the program, or
  (an artefact of the model, which bounds the depth of the recursion by a counter)
  the counter runs out.
\<close>

datatype 'a outcome = Return 'a | Panic | OutOfFuel

fun and_then :: "'a outcome \<Rightarrow> ('a \<Rightarrow> 'b outcome) \<Rightarrow> 'b outcome" where
  "and_then (Return x) f = f x"
| "and_then Panic f = Panic"
| "and_then OutOfFuel f = OutOfFuel"

definition nextToken :: "Parser \<Rightarrow> Parser outcome" where
  "nextToken p =
     (case NextToken (lexer p) of
        None \<Rightarrow> Panic
      | Some (tok, l) \<Rightarrow> Return (p\<lparr>currToken := peekToken p, peekToken := tok, lexer := l\<rparr>))"

definition parser_New :: "Lexer \<Rightarrow> Parser outcome" where
  "parser_New l =
     and_then (nextToken \<lparr>lexer = l,
                          currToken = \<lparr>Literal = [], Type = NoType\<rparr>,
                          peekToken = \<lparr>Literal = [], Type = NoType\<rparr>,
                          errors = []\<rparr>) nextToken"

definition noPrefixParseFnError :: "TokenType \<Rightarrow> Parser \<Rightarrow> Parser" where
  "noPrefixParseFnError t p =
     p\<lparr>errors := errors p @ [''Honk! no prefix parse function for '' @ TokenType_text t @ '' found'']\<rparr>"

definition currTokenIs :: "TokenType \<Rightarrow> Parser \<Rightarrow> bool" where
  "currTokenIs t p \<longleftrightarrow> Type (currToken p) = t"

definition peekTokenIs :: "TokenType \<Rightarrow> Parser \<Rightarrow> bool" where
  "peekTokenIs t p \<longleftrightarrow> Type (peekToken p) = t"

definition peekError :: "TokenType \<Rightarrow> Parser \<Rightarrow> Parser" where
  "peekError t p =
     p\<lparr>errors := errors p @ [''Honk! expected next token to be '' @ TokenType_text t
                             @ '', got '' @ TokenType_text (Type (peekToken p)) @ '' instead'']\<rparr>"

definition expectPeek :: "TokenType \<Rightarrow> Parser \<Rightarrow> (bool \<times> Parser) outcome" where
  "expectPeek t p =
     (if peekTokenIs t p then and_then (nextToken p) (\<lambda>p'. Return (True, p'))
      else Return (False, peekError t p))"

definition peekPrecedence :: "Parser \<Rightarrow> Precedence" where
  "peekPrecedence p = (case precedences (Type (peekToken p)) of Some q \<Rightarrow> q | None \<Rightarrow> LOWEST)"

definition currPrecedence :: "Parser \<Rightarrow> Precedence" where
  "currPrecedence p = (case precedences (Type (currToken p)) of Some q \<Rightarrow> q | None \<Rightarrow> LOWEST)"

definition parseIdentifier :: "Parser \<Rightarrow> 'f Expr option \<times> Parser" where
  "parseIdentifier p = (Some (Identifier (currToken p) (Literal (currToken p))), p)"

text \<open>
  \<open>strconv.ParseFloat\<close> belongs to the Go library, not to this program: it is the
  parameter \<open>ParseFloat\<close> of the parser, \<open>None\<close> standing for a returned error. The
  verb \<open>%q\<close> is applied to number literals only, which consist of digits and dots; it
  then adds the double quotes and nothing else.
\<close>

definition parseNumberLiteral :: "(string \<Rightarrow> 'f option) \<Rightarrow> Parser \<Rightarrow> 'f Expr option \<times> Parser" where
  "parseNumberLiteral ParseFloat p =
     (case ParseFloat (Literal (currToken p)) of
        None \<Rightarrow>
          (None, p\<lparr>errors := errors p @
                     [''could not parse '' @ [quote] @ Literal (currToken p) @ [quote] @ '' as integer'']\<rparr>)
      | Some v \<Rightarrow> (Some (NumberLiteral (currToken p) v), p))"

text \<open>
  The mutually recursive methods. The first argument of each is \<open>ParseFloat\<close>, the
  second the bound on the depth of the calls still allowed; \<open>parseExpression_loop\<close> and
  \<open>parseExpressionList_loop\<close> are the \<open>for\<close> loops of \<open>parseExpression\<close> and
  \<open>parseExpressionList\<close>.
\<close>

function (sequential) parseExpression ::
      "(string \<Rightarrow> 'f option) \<Rightarrow> nat \<Rightarrow> Precedence \<Rightarrow> Parser \<Rightarrow> ('f Expr option \<times> Parser) outcome"
and parseExpression_loop ::
      "(string \<Rightarrow> 'f option) \<Rightarrow> nat \<Rightarrow> Precedence \<Rightarrow> 'f Expr option \<Rightarrow> Parser
        \<Rightarrow> ('f Expr option \<times> Parser) outcome"
and parsePrefixExpr ::
      "(string \<Rightarrow> 'f option) \<Rightarrow> nat \<Rightarrow> Parser \<Rightarrow> ('f Expr option \<times> Parser) outcome"
and parseInfixExpr ::
      "(string \<Rightarrow> 'f option) \<Rightarrow> nat \<Rightarrow> 'f Expr option \<Rightarrow> Parser \<Rightarrow> ('f Expr option \<times> Parser) outcome"
and parseGroupedExpr ::
      "(string \<Rightarrow> 'f option) \<Rightarrow> nat \<Rightarrow> Parser \<Rightarrow> ('f Expr option \<times> Parser) outcome"
and parseExpressionList ::
      "(string \<Rightarrow> 'f option) \<Rightarrow> nat \<Rightarrow> TokenType \<Rightarrow> Parser \<Rightarrow> ('f Expr option list \<times> Parser) outcome"
and parseExpressionList_loop ::
      "(string \<Rightarrow> 'f option) \<Rightarrow> nat \<Rightarrow> 'f Expr option list \<Rightarrow> Parser
        \<Rightarrow> ('f Expr option list \<times> Parser) outcome"
and parseCallExpr ::
      "(string \<Rightarrow> 'f option) \<Rightarrow> nat \<Rightarrow> 'f Expr option \<Rightarrow> Parser \<Rightarrow> ('f Expr option \<times> Parser) outcome"
where
  "parseExpression ParseFloat 0 precedence p = OutOfFuel"
| "parseExpression ParseFloat (Suc n) precedence p =
     (case prefixParseFns (Type (currToken p)) of
        None \<Rightarrow> Return (None, noPrefixParseFnError (Type (currToken p)) p)
      | Some prefixFn \<Rightarrow>
          and_then
            (case prefixFn of
               Fn_parseIdentifier \<Rightarrow> Return (parseIdentifier p)
             | Fn_parseNumberLiteral \<Rightarrow> Return (parseNumberLiteral ParseFloat p)
             | Fn_parsePrefixExpr \<Rightarrow> parsePrefixExpr ParseFloat n p
             | Fn_parseGroupedExpr \<Rightarrow> parseGroupedExpr ParseFloat n p)
            (\<lambda>(left, p1). parseExpression_loop ParseFloat n precedence left p1))"
| "parseExpression_loop ParseFloat 0 precedence left p = OutOfFuel"
| "parseExpression_loop ParseFloat (Suc n) precedence left p =
     (if \<not> peekTokenIs Semicolon p \<and> precedence < peekPrecedence p
      then (case infixParseFns (Type (peekToken p)) of
              None \<Rightarrow> Return (left, p)
            | Some infixFn \<Rightarrow>
                and_then (nextToken p) (\<lambda>p1.
                and_then
                  (case infixFn of
                     Fn_parseInfixExpr \<Rightarrow> parseInfixExpr ParseFloat n left p1
                   | Fn_parseCallExpr \<Rightarrow> parseCallExpr ParseFloat n left p1)
                  (\<lambda>(left', p2). parseExpression_loop ParseFloat n precedence left' p2)))
      else Return (left, p))"
| "parsePrefixExpr ParseFloat 0 p = OutOfFuel"
| "parsePrefixExpr ParseFloat (Suc n) p =
     and_then (nextToken p) (\<lambda>p1.
     and_then (parseExpression ParseFloat n PREFIX p1) (\<lambda>(right, p2).
     Return (Some (PrefixExpr (currToken p) (Literal (currToken p)) right), p2)))"
| "parseInfixExpr ParseFloat 0 left p = OutOfFuel"
| "parseInfixExpr ParseFloat (Suc n) left p =
     (let precedence = currPrecedence p
      in and_then (nextToken p) (\<lambda>p1.
         and_then (parseExpression ParseFloat n precedence p1) (\<lambda>(right, p2).
         Return (Some (InfixExpr (currToken p) left (Literal (currToken p)) right), p2))))"
| "parseGroupedExpr ParseFloat 0 p = OutOfFuel"
| "parseGroupedExpr ParseFloat (Suc n) p =
     and_then (nextToken p) (\<lambda>p1.
     and_then (parseExpression ParseFloat n LOWEST p1) (\<lambda>(expr, p2).
     and_then (expectPeek RightParen p2) (\<lambda>(ok, p3).
     if \<not> ok then Return (None, p3) else Return (expr, p3))))"
| "parseExpressionList ParseFloat 0 end' p = OutOfFuel"
| "parseExpressionList ParseFloat (Suc n) end' p =
     (if peekTokenIs end' p then and_then (nextToken p) (\<lambda>p1. Return ([], p1))
      else
        and_then (nextToken p) (\<lambda>p1.
        and_then (parseExpression ParseFloat n LOWEST p1) (\<lambda>(expr, p2).
        and_then (parseExpressionList_loop ParseFloat n [expr] p2) (\<lambda>(list, p3).
        and_then (expectPeek end' p3) (\<lambda>(ok, p4).
        if \<not> ok then Return ([], p4) else Return (list, p4))))))"
| "parseExpressionList_loop ParseFloat 0 list p = OutOfFuel"
| "parseExpressionList_loop ParseFloat (Suc n) list p =
     (if peekTokenIs Comma p
      then and_then (nextToken p) (\<lambda>p1.
           and_then (nextToken p1) (\<lambda>p2.
           and_then (parseExpression ParseFloat n LOWEST p2) (\<lambda>(expr, p3).
           parseExpressionList_loop ParseFloat n (list @ [expr]) p3)))
      else Return (list, p))"
| "parseCallExpr ParseFloat 0 function p = OutOfFuel"
| "parseCallExpr ParseFloat (Suc n) function p =
     and_then (parseExpressionList ParseFloat n RightParen p) (\<lambda>(arguments, p1).
     Return (Some (CallExpr (currToken p) function arguments), p1))"
  by pat_completeness auto
termination
  by (relation "measure
        (case_sum
          (case_sum (case_sum (\<lambda>a. fst (snd a)) (\<lambda>a. fst (snd a)))
                    (case_sum (\<lambda>a. fst (snd a)) (\<lambda>a. fst (snd a))))
          (case_sum (case_sum (\<lambda>a. fst (snd a)) (\<lambda>a. fst (snd a)))
                    (case_sum (\<lambda>a. fst (snd a)) (\<lambda>a. fst (snd a)))))")
     auto

definition parseExpressionStmt ::
    "(string \<Rightarrow> 'f option) \<Rightarrow> nat \<Rightarrow> Parser \<Rightarrow> ('f Stmt \<times> Parser) outcome" where
  "parseExpressionStmt ParseFloat n p =
     and_then (parseExpression ParseFloat n LOWEST p) (\<lambda>(expr, p1).
     if peekTokenIs Semicolon p1
     then and_then (nextToken p1) (\<lambda>p2. Return (ExpressionStmt (currToken p) expr, p2))
     else Return (ExpressionStmt (currToken p) expr, p1))"

text \<open>
  \<open>parseStatement\<close> returns the statement through the \<open>Stmt\<close> interface; the pointer
  inside is never nil, so the result is never the nil interface.
\<close>

definition parseStatement ::
    "(string \<Rightarrow> 'f option) \<Rightarrow> nat \<Rightarrow> Parser \<Rightarrow> ('f Stmt option \<times> Parser) outcome" where
  "parseStatement ParseFloat n p =
     and_then (parseExpressionStmt ParseFloat n p) (\<lambda>(stmt, p1). Return (Some stmt, p1))"

fun ParseProgram_loop ::
    "(string \<Rightarrow> 'f option) \<Rightarrow> nat \<Rightarrow> 'f Program \<Rightarrow> Parser \<Rightarrow> ('f Program \<times> Parser) outcome" where
  "ParseProgram_loop ParseFloat 0 program p = OutOfFuel"
| "ParseProgram_loop ParseFloat (Suc n) program p =
     (if \<not> currTokenIs EOF p
      then and_then (parseStatement ParseFloat n p) (\<lambda>(stmt, p1).
           and_then (nextToken p1) (\<lambda>p2.
           ParseProgram_loop ParseFloat n
             (case stmt of
                None \<Rightarrow> program
              | Some s \<Rightarrow> program\<lparr>Stmts := Stmts program @ [s]\<rparr>) p2))
      else Return (program, p))"

definition ParseProgram ::
    "(string \<Rightarrow> 'f option) \<Rightarrow> nat \<Rightarrow> Parser \<Rightarrow> ('f Program \<times> Parser) outcome" where
  "ParseProgram ParseFloat n p = ParseProgram_loop ParseFloat n \<lparr>Stmts = []\<rparr> p"

text \<open>Lexing and parsing a source text: \<open>parser.New(lexer.New(src)).ParseProgram()\<close>.\<close>

definition parse ::
    "(string \<Rightarrow> 'f option) \<Rightarrow> nat \<Rightarrow> string \<Rightarrow> ('f Program \<times> Parser) outcome" where
  "parse ParseFloat n src = and_then (parser_New (lexer_New src)) (ParseProgram ParseFloat n)"

section \<open>Notions used in the statements\<close>

text \<open>
  The invariant of the lexer state: \<open>readPosition\<close> is one past \<open>position\<close>, and
  \<open>char\<close> is the symbol at \<open>position\<close>, or the end sentinel past the end.
\<close>

definition lexer_inv :: "Lexer \<Rightarrow> bool" where
  "lexer_inv l \<longleftrightarrow>
     readPosition l = position l + 1 \<and>
     char l = (if position l < length (source l) then source l ! position l else NUL)"

text \<open>The lexer state that satisfies the invariant on \<open>src\<close> at position \<open>i\<close>.\<close>

definition lexer_at :: "string \<Rightarrow> nat \<Rightarrow> Lexer" where
  "lexer_at src i =
     \<lparr>source = src, position = i, readPosition = i + 1,
      char = (if i < length src then src ! i else NUL)\<rparr>"

text \<open>
  \<open>NextToken_iter n l\<close> calls \<open>NextToken\<close> \<open>n + 1\<close> times from the state \<open>l\<close> and yields
  the token of the last call and the state after it.
\<close>

fun NextToken_iter :: "nat \<Rightarrow> Lexer \<Rightarrow> (Token \<times> Lexer) option" where
  "NextToken_iter 0 l = NextToken l"
| "NextToken_iter (Suc n) l =
     (case NextToken l of None \<Rightarrow> None | Some (tok, l') \<Rightarrow> NextToken_iter n l')"

text \<open>Shorthands for tokens and for the nodes that appear in the examples.\<close>

abbreviation token :: "TokenType \<Rightarrow> string \<Rightarrow> Token" where
  "token T s \<equiv> \<lparr>Literal = s, Type = T\<rparr>"

abbreviation Num :: "string \<Rightarrow> 'f \<Rightarrow> 'f Expr option" where
  "Num s v \<equiv> Some (NumberLiteral (token Tok_Number s) v)"

abbreviation Ident :: "string \<Rightarrow> 'f Expr option" where
  "Ident s \<equiv> Some (Identifier (token Tok_Identifier s) s)"

abbreviation Infix :: "'f Expr option \<Rightarrow> TokenType \<Rightarrow> string \<Rightarrow> 'f Expr option \<Rightarrow> 'f Expr option" where
  "Infix l T s r \<equiv> Some (InfixExpr (token T s) l s r)"

text \<open>\<open>returns m Q\<close>: the computation \<open>m\<close> returns, and its result satisfies \<open>Q\<close>.\<close>

definition returns :: "'a outcome \<Rightarrow> ('a \<Rightarrow> bool) \<Rightarrow> bool" where
  "returns m Q \<longleftrightarrow> (case m of Return x \<Rightarrow> Q x | Panic \<Rightarrow> False | OutOfFuel \<Rightarrow> False)"

text \<open>
  The parser has called \<open>NextToken\<close> exactly \<open>k\<close> times since its lexer was constructed
  on \<open>src\<close>: the lexer is in the state after these calls, and the lookahead token is
  the token of the last call.
\<close>

definition tokens_read :: "string \<Rightarrow> Parser \<Rightarrow> nat \<Rightarrow> bool" where
  "tokens_read src p k \<longleftrightarrow>
     (case k of
        0 \<Rightarrow> lexer p = lexer_New src
      | Suc j \<Rightarrow> NextToken_iter j (lexer_New src) = Some (peekToken p, lexer p))"

text \<open>
  The parser state is consistent with the source text \<open>src\<close>: its lexer satisfies the
  invariant on \<open>src\<close> and was only moved by calls of \<open>NextToken\<close>; once the lexer is
  more than one symbol past the end, the lookahead token is \<open>EOF\<close>, and one symbol
  further the current token is too. \<open>remaining\<close> bounds the number of tokens that the
  parser can still consume.
\<close>

definition parser_ok :: "string \<Rightarrow> Parser \<Rightarrow> bool" where
  "parser_ok src p \<longleftrightarrow>
     lexer p = lexer_at src (position (lexer p)) \<and>
     position (lexer p) \<le> length src + 3 \<and>
     (length src + 2 \<le> position (lexer p) \<longrightarrow> Type (peekToken p) = EOF) \<and>
     (length src + 3 \<le> position (lexer p) \<longrightarrow> Type (currToken p) = EOF) \<and>
     (\<exists>k. tokens_read src p k)"

definition remaining :: "string \<Rightarrow> Parser \<Rightarrow> nat" where
  "remaining src p = length src + 3 - position (lexer p)"

text \<open>
  From \<open>p\<close> to \<open>p'\<close> the parser stays consistent, consumes input or stands still, and
  only appends diagnostics.
\<close>

definition advances :: "string \<Rightarrow> Parser \<Rightarrow> Parser \<Rightarrow> bool" where
  "advances src p p' \<longleftrightarrow>
     parser_ok src p' \<and> remaining src p' \<le> remaining src p \<and> prefix (errors p) (errors p')"

text \<open>
  An expression is complete when it is present and has no nil operand, callee or
  argument at any depth, which is when rendering it does not panic; a statement is
  complete when its expression is.
\<close>

definition complete :: "'f Expr option \<Rightarrow> bool" where
  "complete e \<longleftrightarrow> Option.bind e Expr_String \<noteq> None"

fun Stmt_complete :: "'f Stmt \<Rightarrow> bool" where
  "Stmt_complete (ExpressionStmt t e) = complete e"

text \<open>
  What the parsing methods guarantee from a consistent state \<open>p\<close>. \<open>parsed\<close>: the
  parser advances, and the expression is complete unless a diagnostic was appended.
  \<open>continued\<close>, for the methods that extend an expression \<open>left\<close>: the same, unless
  \<open>left\<close> was already incomplete. \<open>listed\<close>: the same for a list of expressions that
  extends \<open>list\<close>.
\<close>

definition parsed :: "string \<Rightarrow> Parser \<Rightarrow> 'f Expr option \<times> Parser \<Rightarrow> bool" where
  "parsed src p r \<longleftrightarrow>
     advances src p (snd r) \<and> (complete (fst r) \<or> strict_prefix (errors p) (errors (snd r)))"

definition continued :: "string \<Rightarrow> 'f Expr option \<Rightarrow> Parser \<Rightarrow> 'f Expr option \<times> Parser \<Rightarrow> bool" where
  "continued src left p r \<longleftrightarrow>
     advances src p (snd r) \<and>
     (complete (fst r) \<or> \<not> complete left \<or> strict_prefix (errors p) (errors (snd r)))"

definition listed ::
    "string \<Rightarrow> 'f Expr option list \<Rightarrow> Parser \<Rightarrow> 'f Expr option list \<times> Parser \<Rightarrow> bool" where
  "listed src list p r \<longleftrightarrow>
     advances src p (snd r) \<and>
     (list_all complete (fst r) \<or> \<not> list_all complete list \<or> strict_prefix (errors p) (errors (snd r)))"

text \<open>
  What \<open>ParseProgram\<close> guarantees from a consistent state \<open>p\<close> and the statements
  \<open>program\<close> collected so far: the lexer still satisfies its invariant on \<open>src\<close> and
  is at most four symbols past the end; diagnostics were only appended; and every
  statement is complete unless one already was not or a diagnostic was appended.
  The lexer was only moved by calls of \<open>NextToken\<close>.
\<close>

definition program_parsed :: "string \<Rightarrow> 'f Program \<Rightarrow> Parser \<Rightarrow> 'f Program \<times> Parser \<Rightarrow> bool" where
  "program_parsed src program p r \<longleftrightarrow>
     lexer (snd r) = lexer_at src (position (lexer (snd r))) \<and>
     position (lexer (snd r)) \<le> length src + 4 \<and>
     (\<exists>k. tokens_read src (snd r) k) \<and>
     prefix (errors p) (errors (snd r)) \<and>
     (list_all Stmt_complete (Stmts (fst r)) \<or> \<not> list_all Stmt_complete (Stmts program) \<or>
      strict_prefix (errors p) (errors (snd r)))"

text \<open>
  The lexer that has read the text \<open>pre\<close> and stands on the first symbol of \<open>rest\<close>.
\<close>

definition lexer_on :: "string \<Rightarrow> string \<Rightarrow> Lexer" where
  "lexer_on pre rest = lexer_at (pre @ rest) (length pre)"

text \<open>
  The binary operators are the token types registered with \<open>parseInfixExpr\<close>;
  \<open>op_text\<close> is how each is written in the source, and \<open>precedence_of\<close> is what
  \<open>peekPrecedence\<close> and \<open>currPrecedence\<close> compute from a token type.
\<close>

definition binary_op :: "TokenType \<Rightarrow> bool" where
  "binary_op T \<longleftrightarrow> infixParseFns T = Some Fn_parseInfixExpr"

fun op_text :: "TokenType \<Rightarrow> string" where
  "op_text Plus = ''+''"
| "op_text Minus = ''-''"
| "op_text Slash = ''/''"
| "op_text Star = ''*''"
| "op_text Modulo = ''%''"
| "op_text EqualTo = ''==''"
| "op_text NotEqualTo = ''!=''"
| "op_text GreaterThanEqualTo = ''>=''"
| "op_text LessThanEqualTo = ''<=''"
| "op_text GreaterThan = ''>''"
| "op_text LessThan = ''<''"
| "op_text And = ''&&''"
| "op_text Or = ''||''"
| "op_text _ = []"

definition precedence_of :: "TokenType \<Rightarrow> Precedence" where
  "precedence_of T = (case precedences T of Some q \<Rightarrow> q | None \<Rightarrow> LOWEST)"

definition additive :: "TokenType \<Rightarrow> bool" where
  "additive T \<longleftrightarrow> T = Plus \<or> T = Minus"

definition multiplicative :: "TokenType \<Rightarrow> bool" where
  "multiplicative T \<longleftrightarrow> T = Star \<or> T = Slash \<or> T = Modulo"

text \<open>
  An operand is a word that the lexer reads as one identifier or as one number and that
  the parser turns into a leaf: a non-empty run of letters and underscores that is not
  a keyword, or a run of digits and dots that starts with a digit and that
  \<open>strconv.ParseFloat\<close> accepts. \<open>operand_tok\<close> is its token and \<open>leaf\<close> its node.
\<close>

definition operand :: "(string \<Rightarrow> 'f option) \<Rightarrow> string \<Rightarrow> bool" where
  "operand ParseFloat w \<longleftrightarrow>
     w \<noteq> [] \<and>
     (if IsAlpha (hd w) then list_all IsAlpha w \<and> LookupIdent w = Tok_Identifier
      else IsNumeric (hd w) \<and> list_all (\<lambda>c. IsNumeric c \<or> c = dot) w \<and> ParseFloat w \<noteq> None)"

definition operand_tok :: "string \<Rightarrow> Token" where
  "operand_tok w = token (if IsAlpha (hd w) then Tok_Identifier else Tok_Number) w"

definition leaf :: "(string \<Rightarrow> 'f option) \<Rightarrow> string \<Rightarrow> 'f Expr option" where
  "leaf ParseFloat w =
     (if IsAlpha (hd w) then Ident w
      else map_option (NumberLiteral (token Tok_Number w)) (ParseFloat w))"

section \<open>The lexer: invariant, progress, end of input\<close>

lemma lexer_inv_iff_at: "lexer_inv l \<longleftrightarrow> l = lexer_at (source l) (position l)"
  by (cases l) (auto simp: lexer_inv_def lexer_at_def)

lemma lexer_at_sel [simp]:
  "source (lexer_at src i) = src" "position (lexer_at src i) = i"
  "readPosition (lexer_at src i) = Suc i"
  "char (lexer_at src i) = (if i < length src then src ! i else NUL)"
  by (simp_all add: lexer_at_def)

lemma readChar_at: "readChar (lexer_at src i) = lexer_at src (Suc i)"
  by (simp add: readChar_def lexer_at_def)

lemma readChar_inv: "lexer_inv (readChar l)"
  by (simp add: readChar_def lexer_inv_def)

lemma lexer_New_at: "lexer_New src = lexer_at src 0"
  by (simp add: lexer_New_def readChar_def lexer_at_def)

lemma char_at_drop: "char (lexer_at src i) = (case drop i src of [] \<Rightarrow> NUL | c # _ \<Rightarrow> c)"
  by (auto simp: hd_drop_conv_nth split: list.splits dest: arg_cong[where f=hd])

text \<open>A loop that reads on while the current symbol satisfies P stops behind the longest run of P.\<close>

lemma scan_at:
  assumes loop: "\<And>l. f l = (if P (char l) then f (readChar l) else l)" and nul: "\<not> P NUL"
  shows "f (lexer_at src i) = lexer_at src (i + length (takeWhile P (drop i src)))"
proof (induction "length src - i" arbitrary: i)
  case 0
  then have "drop i src = []" by simp
  with nul show ?case by (subst loop) simp
next
  case (Suc k)
  then have lt: "i < length src" by simp
  then have d: "drop i src = src ! i # drop (Suc i) src" by (simp add: Cons_nth_drop_Suc)
  show ?case
  proof (cases "P (src ! i)")
    case True
    have "f (lexer_at src i) = f (lexer_at src (Suc i))"
      using True lt by (subst loop) (simp add: readChar_at)
    also have "\<dots> = lexer_at src (Suc i + length (takeWhile P (drop (Suc i) src)))"
      using Suc by (intro Suc.hyps(1)) simp
    finally show ?thesis using True d by simp
  next
    case False
    then show ?thesis using lt d by (subst loop) simp
  qed
qed

lemma skipWhitespace_at:
  "skipWhitespace (lexer_at src i) = lexer_at src (i + length (takeWhile IsSkipable (drop i src)))"
proof (rule scan_at)
  show "skipWhitespace l = (if IsSkipable (char l) then skipWhitespace (readChar l) else l)" for l
    by (subst skipWhitespace.simps) (auto simp: IsSkipable_def)
qed (simp add: IsSkipable_def)

lemma readIdentifer_loop_at:
  "readIdentifer_loop (lexer_at src i) = lexer_at src (i + length (takeWhile IsAlpha (drop i src)))"
  by (rule scan_at) (subst readIdentifer_loop.simps, simp, simp add: IsAlpha_def)

lemma readNumber_loop_at:
  "readNumber_loop (lexer_at src i) =
   lexer_at src (i + length (takeWhile (\<lambda>c. IsNumeric c \<or> c = dot) (drop i src)))"
  by (rule scan_at) (subst readNumber_loop.simps, simp, simp add: IsNumeric_def)

lemma readString_loop_at:
  "readString_loop (lexer_at src i) =
   lexer_at src (Suc i + length (takeWhile (\<lambda>c. c \<noteq> quote \<and> c \<noteq> NUL) (drop (Suc i) src)))"
proof (induction "length src - i" arbitrary: i)
  case 0
  then show ?case by (subst readString_loop.simps) (simp add: readChar_at)
next
  case (Suc k)
  show ?case
  proof (cases "Suc i < length src")
    case True
    then have d: "drop (Suc i) src = src ! Suc i # drop (Suc (Suc i)) src"
      by (simp add: Cons_nth_drop_Suc)
    show ?thesis
    proof (cases "src ! Suc i = quote \<or> src ! Suc i = NUL")
      case True
      then show ?thesis using \<open>Suc i < length src\<close> d
        by (subst readString_loop.simps) (auto simp add: readChar_at)
    next
      case False
      have "readString_loop (lexer_at src i) = readString_loop (lexer_at src (Suc i))"
        using False True by (subst readString_loop.simps) (simp add: readChar_at)
      also have "\<dots> = lexer_at src (Suc (Suc i) + length (takeWhile (\<lambda>c. c \<noteq> quote \<and> c \<noteq> NUL) (drop (Suc (Suc i)) src)))"
        using Suc by (intro Suc.hyps(1)) simp
      finally show ?thesis using False d by simp
    qed
  next
    case False
    then show ?thesis by (subst readString_loop.simps) (simp add: readChar_at)
  qed
qed


lemma takeWhile_drop_le: "i + length (takeWhile P (drop i src)) \<le> max i (length src)"
proof -
  have "length (takeWhile P (drop i src)) \<le> length (drop i src)" by (rule length_takeWhile_le)
  then show ?thesis by simp
qed

lemma skipWhitespace_noskip:
  "\<not> IsSkipable (char (lexer_at src j)) \<Longrightarrow> skipWhitespace (lexer_at src j) = lexer_at src j"
  by (subst skipWhitespace.simps) (auto simp: IsSkipable_def)

lemma slice_run:
  "j \<le> length src \<Longrightarrow>
   slice src j (j + length (takeWhile P (drop j src))) = Some (takeWhile P (drop j src))"
  using takeWhile_drop_le[of j P src] takeWhile_eq_take[of P "drop j src"]
  by (simp add: slice_def max_def)

lemma twoChar_at:
  "twoChar second both single (lexer_at src j) =
     (if peekChar (lexer_at src j) = second
      then (\<lparr>Literal = string_of_byte (char (lexer_at src j)) @ string_of_byte second, Type = both\<rparr>,
            lexer_at src (Suc j))
      else (MakeToken single (char (lexer_at src j)), lexer_at src j))"
  by (auto simp: twoChar_def Let_def readChar_at peekChar_def)

lemma peekChar_nonNUL: "peekChar (lexer_at src j) = c \<Longrightarrow> c \<noteq> NUL \<Longrightarrow> Suc j < length src"
  by (auto simp: peekChar_def split: if_splits)

lemma NextToken_noskip:
  assumes ns: "\<not> IsSkipable (char (lexer_at src j))"
  shows "\<exists>tok k. NextToken (lexer_at src j) = Some (tok, lexer_at src k) \<and> j < k \<and>
           k \<le> Suc (max j (length src)) \<and>
           (length src \<le> j \<longrightarrow> tok = \<lparr>Literal = [], Type = EOF\<rparr> \<and> k = Suc j)"
proof -
  let ?l = "lexer_at src j"
  let ?c = "char ?l"
  define Q where "Q r \<longleftrightarrow> (\<exists>tok k. r = Some (tok, lexer_at src k) \<and> j < k \<and>
           k \<le> Suc (max j (length src)))" for r :: "(Token \<times> Lexer) option"
  have QI: "Q (Some (tok, lexer_at src k))" if "j < k" "k \<le> Suc (max j (length src))" for tok k
    using that unfolding Q_def by blast
  have sk: "skipWhitespace ?l = ?l" using ns by (rule skipWhitespace_noskip)
  show ?thesis
  proof (cases "length src \<le> j")
    case True
    then show ?thesis
      by (simp add: NextToken_def sk Let_def readChar_at)
  next
    case False
    then have jlt: "j < length src" by simp
    have single: "Q (Some (tok, readChar ?l))" for tok
      unfolding readChar_at by (rule QI) simp_all
    have double: "Q (case twoChar second both one ?l of (tok, l') \<Rightarrow> Some (tok, readChar l'))"
      if "second \<noteq> NUL" for second both one
    proof (cases "peekChar ?l = second")
      case True
      with that have "Suc j < length src" using peekChar_nonNUL by blast
      then show ?thesis using True unfolding twoChar_at by (simp add: readChar_at QI)
    next
      case False
      then show ?thesis unfolding twoChar_at by (simp add: readChar_at QI)
    qed
    have str: "Q (case readString ?l of None \<Rightarrow> None
                 | Some (s, l') \<Rightarrow> Some (\<lparr>Literal = s, Type = Tok_String\<rparr>, readChar l'))"
      using jlt slice_run[of "Suc j" src "\<lambda>c. c \<noteq> quote \<and> c \<noteq> NUL"]
        takeWhile_drop_le[of "Suc j" "\<lambda>c. c \<noteq> quote \<and> c \<noteq> NUL" src]
      by (simp add: readString_def Let_def readString_loop_at readChar_at max_def QI)
    have idt: "Q (case readIdentifer ?l of None \<Rightarrow> None
                 | Some (s, l') \<Rightarrow> Some (\<lparr>Literal = s, Type = LookupIdent s\<rparr>, l'))"
      if "IsAlpha ?c"
      using that jlt slice_run[of j src IsAlpha] takeWhile_drop_le[of j IsAlpha src]
      by (simp add: readIdentifer_def Let_def readIdentifer_loop_at max_def
            Cons_nth_drop_Suc[symmetric] QI)
    have num: "Q (case readNumber ?l of None \<Rightarrow> None
                 | Some (s, l') \<Rightarrow> Some (\<lparr>Literal = s, Type = Tok_Number\<rparr>, l'))"
      if "IsNumeric ?c"
      using that jlt slice_run[of j src "\<lambda>c. IsNumeric c \<or> c = dot"]
         takeWhile_drop_le[of j "\<lambda>c. IsNumeric c \<or> c = dot" src]
      by (simp add: readNumber_def Let_def readNumber_loop_at max_def
            Cons_nth_drop_Suc[symmetric] QI)
    have eof: "Q (Some (\<lparr>Literal = [], Type = EOF\<rparr>, readChar ?l))"
      unfolding readChar_at by (rule QI) simp_all
    have "Q (NextToken ?l)"
      unfolding NextToken_def sk Let_def
      using single double str idt num eof
      by (simp del: lexer_at_sel)
    then show ?thesis using False unfolding Q_def by auto
  qed
qed


lemma skipWhitespace_idem: "skipWhitespace (skipWhitespace l) = skipWhitespace l"
proof (induction l rule: skipWhitespace.induct)
  case (1 l)
  show ?case
  proof (cases "char l = CHR '' '' \<or> char l = CHR 0x09 \<or> char l = CHR 0x0A \<or> char l = CHR 0x0D")
    case True
    then have "skipWhitespace l = skipWhitespace (readChar l)"
      by (subst skipWhitespace.simps) simp
    with 1 True show ?thesis by simp
  next
    case False
    then have "skipWhitespace l = l" by (subst skipWhitespace.simps) simp
    then show ?thesis by simp
  qed
qed

lemma NextToken_skip: "NextToken (skipWhitespace l) = NextToken l"
  unfolding NextToken_def skipWhitespace_idem ..

lemma run_end: "\<not> P NUL \<Longrightarrow> \<not> P (char (lexer_at src (i + length (takeWhile P (drop i src)))))"
  using nth_length_takeWhile[of P "drop i src"] by (auto simp: add.commute)

lemma NextToken_at:
  "\<exists>tok k. NextToken (lexer_at src i) = Some (tok, lexer_at src k) \<and> i < k \<and>
           k \<le> Suc (max i (length src)) \<and>
           (length src \<le> i \<longrightarrow> tok = \<lparr>Literal = [], Type = EOF\<rparr> \<and> k = Suc i)"
proof -
  define j where "j = i + length (takeWhile IsSkipable (drop i src))"
  have sk: "skipWhitespace (lexer_at src i) = lexer_at src j"
    unfolding j_def by (rule skipWhitespace_at)
  have "\<not> IsSkipable (char (lexer_at src j))"
    unfolding j_def by (rule run_end) (simp add: IsSkipable_def)
  from NextToken_noskip[OF this] obtain tok k where
    nt: "NextToken (lexer_at src j) = Some (tok, lexer_at src k)" and "j < k"
    and "k \<le> Suc (max j (length src))"
    and e: "length src \<le> j \<longrightarrow> tok = \<lparr>Literal = [], Type = EOF\<rparr> \<and> k = Suc j"
    by blast
  have ij: "i \<le> j" and jm: "j \<le> max i (length src)"
    unfolding j_def using takeWhile_drop_le[of i IsSkipable src] by simp_all
  have eq: "length src \<le> i \<Longrightarrow> j = i" unfolding j_def by simp
  have "NextToken (lexer_at src i) = Some (tok, lexer_at src k)"
    using nt sk NextToken_skip[of "lexer_at src i"] by simp
  moreover have "i < k" using ij \<open>j < k\<close> by simp
  moreover have "k \<le> Suc (max i (length src))"
    using \<open>k \<le> Suc (max j (length src))\<close> jm by (simp add: max_def split: if_splits)
  moreover have "length src \<le> i \<longrightarrow> tok = \<lparr>Literal = [], Type = EOF\<rparr> \<and> k = Suc i"
    using e eq by auto
  ultimately show ?thesis by blast
qed

text \<open>
  Claim C8. The lexer state satisfies its invariant after construction and after every
  \<open>readChar\<close>, whatever the state before; and from a state that satisfies it,
  \<open>NextToken\<close> returns (it does not panic) in a state that satisfies it again:
  \<open>readPosition = position + 1\<close>, and \<open>char\<close> is \<open>source[position]\<close> when
  \<open>position < len(source)\<close> and the sentinel 0 otherwise.
\<close>

theorem lexer_state_invariant:
  "lexer_inv (lexer_New src) \<and> lexer_inv (readChar l) \<and>
   (lexer_inv l \<longrightarrow> (\<exists>tok l'. NextToken l = Some (tok, l') \<and> lexer_inv l'))"
proof (intro conjI impI)
  show "lexer_inv (lexer_New src)" by (simp add: lexer_New_def readChar_inv)
  show "lexer_inv (readChar l)" by (rule readChar_inv)
  assume "lexer_inv l"
  then have l: "l = lexer_at (source l) (position l)" by (simp add: lexer_inv_iff_at)
  from NextToken_at[of "source l" "position l"] obtain tok k where
    "NextToken l = Some (tok, lexer_at (source l) k)" using l by auto
  moreover have "lexer_inv (lexer_at (source l) k)" by (simp add: lexer_inv_iff_at)
  ultimately show "\<exists>tok l'. NextToken l = Some (tok, l') \<and> lexer_inv l'" by blast
qed

theorem lexer_state_invariant_witness:
  "lexer_inv (lexer_New ''a b'') \<and>
   (\<exists>tok l'. NextToken (lexer_New ''a b'') = Some (tok, l') \<and> lexer_inv l')"
  using lexer_state_invariant[of "''a b''" "lexer_New ''a b''" ] by blast

lemma NextToken_iter_eof:
  "length src \<le> i + n \<Longrightarrow>
   \<exists>k. NextToken_iter n (lexer_at src i) = Some (\<lparr>Literal = [], Type = EOF\<rparr>, lexer_at src k)"
proof (induction n arbitrary: i)
  case 0
  then show ?case using NextToken_at[of src i] by auto
next
  case (Suc n)
  from NextToken_at[of src i] obtain tok k where
    nt: "NextToken (lexer_at src i) = Some (tok, lexer_at src k)" and "i < k" by blast
  with Suc.prems have "length src \<le> k + n" by simp
  from Suc.IH[OF this] show ?case using nt by simp
qed

text \<open>
  Claim C4. From the \<open>len(source)\<close>-th call on (counting from zero), every call of
  \<open>NextToken\<close> on a freshly constructed lexer returns the end-of-input token, of
  type \<open>EOF\<close> and with the empty literal: it never panics and never returns another
  token.
\<close>

theorem end_of_input_terminal:
  "\<forall>n\<ge>length src. \<exists>l'. NextToken_iter n (lexer_New src) = Some (\<lparr>Literal = [], Type = EOF\<rparr>, l')"
  using NextToken_iter_eof[of src 0] by (auto simp: lexer_New_at)

theorem end_of_input_terminal_witness:
  "(3::nat) \<ge> length ''a b'' \<and>
   (\<exists>l'. NextToken_iter 3 (lexer_New ''a b'') = Some (\<lparr>Literal = [], Type = EOF\<rparr>, l'))"
  using end_of_input_terminal[of "''a b''"] by simp

section \<open>String literals\<close>

lemmas lexer_eval = lexer_New_def readChar_def NextToken_def Let_def skipWhitespace.simps
  readIdentifer_loop.simps readNumber_loop.simps readString_loop.simps readIdentifer_def
  readNumber_def readString_def slice_def peekChar_def twoChar_def MakeToken_def
  string_of_byte_def LookupIdent_def IsAlpha_def IsNumeric_def

lemma NextToken_string:
  assumes "i < length src" "src ! i = quote"
  shows "NextToken (lexer_at src i) =
         Some (token Tok_String (takeWhile (\<lambda>c. c \<noteq> quote \<and> c \<noteq> NUL) (drop (Suc i) src)),
               lexer_at src (i + length (takeWhile (\<lambda>c. c \<noteq> quote \<and> c \<noteq> NUL) (drop (Suc i) src)) + 2))"
proof -
  have "\<not> IsSkipable (char (lexer_at src i))" using assms by (simp add: IsSkipable_def)
  then have sk: "skipWhitespace (lexer_at src i) = lexer_at src i" by (rule skipWhitespace_noskip)
  show ?thesis
    using assms slice_run[of "Suc i" src "\<lambda>c. c \<noteq> quote \<and> c \<noteq> NUL"]
    by (simp add: NextToken_def sk Let_def readString_def readString_loop_at readChar_at)
qed

text \<open>
  Claim C5, as amended. When the lexer stands on a double quote, \<open>NextToken\<close> returns
  a token of type \<open>String\<close> (never a panic, never \<open>Illegal\<close>) whose literal is the
  text after the opening quote up to, and not including, the first double quote or NUL
  byte; the lexer then stands behind that symbol. When the text after the opening
  quote has neither a double quote nor a NUL byte, the literal is that whole text, to
  the end of the input; when the text up to the closing quote has no NUL byte, the
  literal is the text strictly between the two quotes.
\<close>

theorem string_literal:
  "NextToken (lexer_at (pre @ quote # rest) (length pre)) =
     Some (token Tok_String (takeWhile (\<lambda>c. c \<noteq> quote \<and> c \<noteq> NUL) rest),
           lexer_at (pre @ quote # rest)
             (length pre + length (takeWhile (\<lambda>c. c \<noteq> quote \<and> c \<noteq> NUL) rest) + 2)) \<and>
   (quote \<notin> set rest \<and> NUL \<notin> set rest \<longrightarrow>
      takeWhile (\<lambda>c. c \<noteq> quote \<and> c \<noteq> NUL) rest = rest) \<and>
   (quote \<notin> set s \<and> NUL \<notin> set s \<longrightarrow>
      takeWhile (\<lambda>c. c \<noteq> quote \<and> c \<noteq> NUL) (s @ quote # t) = s)"
proof (intro conjI impI)
  show "NextToken (lexer_at (pre @ quote # rest) (length pre)) =
     Some (token Tok_String (takeWhile (\<lambda>c. c \<noteq> quote \<and> c \<noteq> NUL) rest),
           lexer_at (pre @ quote # rest)
             (length pre + length (takeWhile (\<lambda>c. c \<noteq> quote \<and> c \<noteq> NUL) rest) + 2))"
    using NextToken_string[of "length pre" "pre @ quote # rest"] by simp
next
  assume "quote \<notin> set rest \<and> NUL \<notin> set rest"
  then show "takeWhile (\<lambda>c. c \<noteq> quote \<and> c \<noteq> NUL) rest = rest"
    by (intro takeWhile_eq_all_conv[THEN iffD2]) auto
next
  assume "quote \<notin> set s \<and> NUL \<notin> set s"
  then show "takeWhile (\<lambda>c. c \<noteq> quote \<and> c \<noteq> NUL) (s @ quote # t) = s"
    by (subst takeWhile_append2) auto
qed

theorem string_literal_witness:
  "NextToken (lexer_at (''x = '' @ quote # ''ab'') (length ''x = '')) =
     Some (token Tok_String ''ab'', lexer_at (''x = '' @ quote # ''ab'') 8) \<and>
   NextToken (lexer_at ([] @ quote # (''ab'' @ quote # ''cd'')) (length ([] :: string))) =
     Some (token Tok_String ''ab'', lexer_at ([] @ quote # (''ab'' @ quote # ''cd'')) 4)"
  using string_literal[of "''x = ''" "''ab''" "''ab''" "[]"]
        string_literal[of "[]" "''ab'' @ quote # ''cd''" "''ab''" "''cd''"]
  by simp

text \<open>
  Claim C5 as stated fails on a source with a NUL byte inside the string: the byte 0 is
  the end sentinel of the lexer. For the unterminated string made of a double quote
  and the three symbols \<open>a\<close>, NUL, \<open>b\<close>, the literal is \<open>a\<close> and not the text to
  the end of the input; with a closing quote added, the literal is \<open>a\<close> and not the
  text between the quotes.
\<close>

theorem unterminated_string_counterexample:
  "NextToken (lexer_New [quote, CHR ''a'', NUL, CHR ''b'']) =
     Some (token Tok_String ''a'', lexer_at [quote, CHR ''a'', NUL, CHR ''b''] 3) \<and>
   ''a'' \<noteq> [CHR ''a'', NUL, CHR ''b''] \<and>
   NextToken (lexer_New [quote, CHR ''a'', NUL, CHR ''b'', quote]) =
     Some (token Tok_String ''a'', lexer_at [quote, CHR ''a'', NUL, CHR ''b'', quote] 3)"
  by (simp add: lexer_eval lexer_at_def)

section \<open>Lexing identifiers, numbers and operators\<close>

lemma lexer_New_on: "lexer_New src = lexer_on [] src"
  by (simp add: lexer_New_at lexer_on_def)

lemma char_on [simp]: "char (lexer_on pre rest) = (case rest of [] \<Rightarrow> NUL | c # _ \<Rightarrow> c)"
  by (simp add: lexer_on_def nth_append split: list.splits)

lemma peekChar_on [simp]:
  "peekChar (lexer_on pre (c # rest)) = (case rest of [] \<Rightarrow> NUL | d # _ \<Rightarrow> d)"
  by (simp add: lexer_on_def peekChar_def nth_append split: list.splits)

lemma readChar_on: "readChar (lexer_on pre (c # rest)) = lexer_on (pre @ [c]) rest"
  by (simp add: lexer_on_def readChar_at)

lemma skipWhitespace_on:
  "\<not> IsSkipable (case rest of [] \<Rightarrow> NUL | c # _ \<Rightarrow> c) \<Longrightarrow> skipWhitespace (lexer_on pre rest) = lexer_on pre rest"
  unfolding lexer_on_def by (rule skipWhitespace_noskip) (simp add: nth_append split: list.splits)

lemma NextToken_space:
  "NextToken (lexer_on pre (CHR '' '' # rest)) = NextToken (lexer_on (pre @ '' '') rest)"
proof -
  have "skipWhitespace (lexer_on pre (CHR '' '' # rest)) = skipWhitespace (lexer_on (pre @ '' '') rest)"
    by (subst skipWhitespace.simps) (simp add: readChar_on)
  then show ?thesis
    using NextToken_skip[of "lexer_on pre (CHR '' '' # rest)"] NextToken_skip[of "lexer_on (pre @ '' '') rest"]
    by simp
qed

lemma NextToken_end:
  "NextToken (lexer_on pre []) = Some (token EOF [], lexer_at pre (Suc (length pre)))"
  using NextToken_at[of pre "length pre"] by (auto simp: lexer_on_def)

lemma NextToken_past_end:
  "length src \<le> k \<Longrightarrow> NextToken (lexer_at src k) = Some (token EOF [], lexer_at src (Suc k))"
  using NextToken_at[of src k] by auto

lemma IsAlpha_plain:
  "IsAlpha c \<Longrightarrow> \<not> IsSkipable c \<and> c \<noteq> CHR ''('' \<and> c \<noteq> CHR '')'' \<and> c \<noteq> CHR ''{'' \<and> c \<noteq> CHR ''}'' \<and>
     c \<noteq> CHR ''['' \<and> c \<noteq> CHR '']'' \<and> c \<noteq> CHR '';'' \<and> c \<noteq> CHR '','' \<and> c \<noteq> CHR '':'' \<and> c \<noteq> dot \<and>
     c \<noteq> quote \<and> c \<noteq> eqSym \<and> c \<noteq> CHR ''+'' \<and> c \<noteq> CHR ''-'' \<and> c \<noteq> CHR ''*'' \<and> c \<noteq> CHR ''/'' \<and>
     c \<noteq> CHR ''%'' \<and> c \<noteq> CHR ''>'' \<and> c \<noteq> CHR ''<'' \<and> c \<noteq> CHR ''!'' \<and> c \<noteq> ampersand \<and>
     c \<noteq> pipe \<and> c \<noteq> NUL \<and> \<not> IsNumeric c"
  by (auto simp: IsAlpha_def IsSkipable_def IsNumeric_def less_eq_char_def)

lemma IsNumeric_plain:
  "IsNumeric c \<Longrightarrow> \<not> IsSkipable c \<and> c \<noteq> CHR ''('' \<and> c \<noteq> CHR '')'' \<and> c \<noteq> CHR ''{'' \<and> c \<noteq> CHR ''}'' \<and>
     c \<noteq> CHR ''['' \<and> c \<noteq> CHR '']'' \<and> c \<noteq> CHR '';'' \<and> c \<noteq> CHR '','' \<and> c \<noteq> CHR '':'' \<and> c \<noteq> dot \<and>
     c \<noteq> quote \<and> c \<noteq> eqSym \<and> c \<noteq> CHR ''+'' \<and> c \<noteq> CHR ''-'' \<and> c \<noteq> CHR ''*'' \<and> c \<noteq> CHR ''/'' \<and>
     c \<noteq> CHR ''%'' \<and> c \<noteq> CHR ''>'' \<and> c \<noteq> CHR ''<'' \<and> c \<noteq> CHR ''!'' \<and> c \<noteq> ampersand \<and>
     c \<noteq> pipe \<and> c \<noteq> NUL \<and> \<not> IsAlpha c"
  by (auto simp: IsAlpha_def IsSkipable_def IsNumeric_def less_eq_char_def)

lemma takeWhile_run:
  "list_all P w \<Longrightarrow> (case rest of [] \<Rightarrow> True | d # _ \<Rightarrow> \<not> P d) \<Longrightarrow> takeWhile P (w @ rest) = w"
  by (cases rest) (auto simp: list_all_iff takeWhile_append2)

lemma NextToken_ident:
  assumes w: "w \<noteq> []" "list_all IsAlpha w"
    and rest: "case rest of [] \<Rightarrow> True | d # _ \<Rightarrow> \<not> IsAlpha d"
  shows "NextToken (lexer_on pre (w @ rest)) = Some (token (LookupIdent w) w, lexer_on (pre @ w) rest)"
proof -
  obtain c w' where cw: "w = c # w'" using w by (cases w) auto
  then have c: "IsAlpha c" using w by simp
  have sk: "skipWhitespace (lexer_on pre (w @ rest)) = lexer_on pre (w @ rest)"
    using IsAlpha_plain[OF c] by (intro skipWhitespace_on) (simp add: cw)
  have run: "takeWhile IsAlpha (w @ rest) = w" using w(2) rest by (rule takeWhile_run)
  have rd: "readIdentifer (lexer_on pre (w @ rest)) = Some (w, lexer_on (pre @ w) rest)"
    using slice_run[of "length pre" "pre @ w @ rest" IsAlpha]
    by (simp add: readIdentifer_def Let_def lexer_on_def readIdentifer_loop_at run)
  show ?thesis
    unfolding NextToken_def sk Let_def using IsAlpha_plain[OF c] c rd
    by (simp add: cw)
qed

lemma NextToken_number:
  assumes w: "w \<noteq> []" "IsNumeric (hd w)" "list_all (\<lambda>c. IsNumeric c \<or> c = dot) w"
    and rest: "case rest of [] \<Rightarrow> True | d # _ \<Rightarrow> \<not> (IsNumeric d \<or> d = dot)"
  shows "NextToken (lexer_on pre (w @ rest)) = Some (token Tok_Number w, lexer_on (pre @ w) rest)"
proof -
  obtain c w' where cw: "w = c # w'" using w by (cases w) auto
  then have c: "IsNumeric c" using w by simp
  have sk: "skipWhitespace (lexer_on pre (w @ rest)) = lexer_on pre (w @ rest)"
    using IsNumeric_plain[OF c] by (intro skipWhitespace_on) (simp add: cw)
  have run: "takeWhile (\<lambda>c. IsNumeric c \<or> c = dot) (w @ rest) = w" using w(3) rest by (rule takeWhile_run)
  have rd: "readNumber (lexer_on pre (w @ rest)) = Some (w, lexer_on (pre @ w) rest)"
    using slice_run[of "length pre" "pre @ w @ rest" "\<lambda>c. IsNumeric c \<or> c = dot"]
    by (simp add: readNumber_def Let_def lexer_on_def readNumber_loop_at run)
  show ?thesis
    unfolding NextToken_def sk Let_def using IsNumeric_plain[OF c] c rd
    by (simp add: cw)
qed

lemma NextToken_operand:
  assumes "operand pf w"
    and "case rest of [] \<Rightarrow> True | d # _ \<Rightarrow> \<not> IsAlpha d \<and> \<not> IsNumeric d \<and> d \<noteq> dot"
  shows "NextToken (lexer_on pre (w @ rest)) = Some (operand_tok w, lexer_on (pre @ w) rest)"
proof (cases "IsAlpha (hd w)")
  case True
  then show ?thesis
    using assms NextToken_ident[of w rest pre]
    by (auto simp: operand_def operand_tok_def split: list.splits)
next
  case False
  then show ?thesis
    using assms NextToken_number[of w rest pre]
    by (auto simp: operand_def operand_tok_def split: list.splits)
qed

lemma NextToken_op:
  assumes "binary_op T" and "rest = [] \<or> hd rest = CHR '' ''"
  shows "NextToken (lexer_on pre (op_text T @ rest)) = Some (token T (op_text T), lexer_on (pre @ op_text T) rest)"
proof -
  have nx: "(case rest of [] \<Rightarrow> NUL | d # _ \<Rightarrow> d) \<noteq> eqSym"
           "(case rest of [] \<Rightarrow> NUL | d # _ \<Rightarrow> d) \<noteq> ampersand"
           "(case rest of [] \<Rightarrow> NUL | d # _ \<Rightarrow> d) \<noteq> pipe"
    using assms(2) by (auto split: list.splits)
  show ?thesis
    using assms(1) nx
    by (cases T)
       (simp_all add: binary_op_def NextToken_def Let_def skipWhitespace_on IsSkipable_def twoChar_def
          MakeToken_def string_of_byte_def readChar_on)
qed

lemma NextToken_paren:
  "NextToken (lexer_on pre (CHR ''('' # rest)) = Some (token LeftParen ''('', lexer_on (pre @ ''('') rest)"
  "NextToken (lexer_on pre (CHR '')'' # rest)) = Some (token RightParen '')'', lexer_on (pre @ '')'') rest)"
  by (simp_all add: NextToken_def Let_def skipWhitespace_on IsSkipable_def MakeToken_def
          string_of_byte_def readChar_on)

section \<open>The precedence table\<close>

text \<open>
  Claim C6. The precedence assigned to each operator, and the strict order of the
  levels: and/or below equality below \<open>>=\<close>, \<open><=\<close> below \<open><\<close>, \<open>>\<close> below additive
  below multiplicative below unary prefix below call below index.
\<close>

theorem precedence_order:
  "precedences And = Some ANDOR \<and> precedences Or = Some ANDOR \<and>
   precedences EqualTo = Some EQUALS \<and> precedences NotEqualTo = Some EQUALS \<and>
   precedences GreaterThanEqualTo = Some LESSGREATEREQUAL \<and>
   precedences LessThanEqualTo = Some LESSGREATEREQUAL \<and>
   precedences LessThan = Some LESSGREATER \<and> precedences GreaterThan = Some LESSGREATER \<and>
   precedences Plus = Some SUM_prec \<and> precedences Minus = Some SUM_prec \<and>
   precedences Star = Some PRODUCT \<and> precedences Slash = Some PRODUCT \<and>
   precedences Modulo = Some PRODUCT \<and>
   precedences LeftParen = Some CALL \<and> precedences LeftSquareBracket = Some INDEX \<and>
   LOWEST < ANDOR \<and> ANDOR < EQUALS \<and> EQUALS < LESSGREATEREQUAL \<and>
   LESSGREATEREQUAL < LESSGREATER \<and> LESSGREATER < SUM_prec \<and> SUM_prec < PRODUCT \<and>
   PRODUCT < PREFIX \<and> PREFIX < CALL \<and> CALL < INDEX"
  by (simp add: LOWEST_def ANDOR_def EQUALS_def LESSGREATEREQUAL_def LESSGREATER_def SUM_prec_def
        PRODUCT_def PREFIX_def CALL_def INDEX_def)

theorem precedence_order_witness:
  "precedences GreaterThanEqualTo = Some LESSGREATEREQUAL \<and>
   precedences GreaterThan = Some LESSGREATER \<and> LESSGREATEREQUAL < LESSGREATER"
  using precedence_order by simp

section \<open>Two operators between three operands\<close>

lemmas parser_steps = parser_New_def nextToken_def ParseProgram_def parseStatement_def
  parseExpressionStmt_def currTokenIs_def peekTokenIs_def peekPrecedence_def currPrecedence_def
  parseIdentifier_def parseNumberLiteral_def expectPeek_def peekError_def noPrefixParseFnError_def
  eval_nat_numeral

lemma binary_op_facts:
  "binary_op T \<Longrightarrow>
     infixParseFns T = Some Fn_parseInfixExpr \<and> precedences T = Some (precedence_of T) \<and>
     LOWEST < precedence_of T \<and> T \<noteq> Semicolon \<and> T \<noteq> EOF"
  by (cases T) (simp_all add: binary_op_def precedence_of_def LOWEST_def ANDOR_def EQUALS_def
       LESSGREATEREQUAL_def LESSGREATER_def SUM_prec_def PRODUCT_def)

lemma operand_cases:
  assumes "operand pf w"
  shows "(operand_tok w = token Tok_Identifier w \<and> leaf pf w = Ident w) \<or>
         (\<exists>v. pf w = Some v \<and> operand_tok w = token Tok_Number w \<and> leaf pf w = Num w v)"
  using assms by (auto simp: operand_def operand_tok_def leaf_def split: if_splits)

lemma two_operators_core:
  assumes lex: "NextToken l0 = Some (token TA a, l1)" "NextToken l1 = Some (token T1 s1, l2)"
      "NextToken l2 = Some (token TB b, l3)" "NextToken l3 = Some (token T2 s2, l4)"
      "NextToken l4 = Some (token TC c, l5)" "NextToken l5 = Some (token EOF e1, l6)"
      "NextToken l6 = Some (t7, l7)"
    and A: "TA = Tok_Identifier \<and> LA = Ident a \<or> TA = Tok_Number \<and> pf a = Some va \<and> LA = Num a va"
    and B: "TB = Tok_Identifier \<and> LB = Ident b \<or> TB = Tok_Number \<and> pf b = Some vb \<and> LB = Num b vb"
    and C: "TC = Tok_Identifier \<and> LC = Ident c \<or> TC = Tok_Number \<and> pf c = Some vc \<and> LC = Num c vc"
    and ops: "binary_op T1" "binary_op T2"
  shows "and_then (parser_New l0) (ParseProgram pf (20 + n)) =
         Return (\<lparr>Stmts = [ExpressionStmt (token TA a)
                    (if precedence_of T1 < precedence_of T2
                     then Infix LA T1 s1 (Infix LB T2 s2 LC)
                     else Infix (Infix LA T1 s1 LB) T2 s2 LC)]\<rparr>,
                 \<lparr>lexer = l7, currToken = token EOF e1, peekToken = t7, errors = []\<rparr>)"
proof -
  note f1 = binary_op_facts[OF ops(1)] and f2 = binary_op_facts[OF ops(2)]
  show ?thesis
  proof (cases "precedence_of T1 < precedence_of T2")
    case True
    show ?thesis
      using A B C
      by (elim disjE conjE) (simp_all add: True lex f1 f2 parser_steps)
  next
    case False
    show ?thesis
      using A B C
      by (elim disjE conjE) (simp_all add: False lex f1 f2 parser_steps)
  qed
qed


lemma group_left_core:
  assumes lex: "NextToken l0 = Some (token LeftParen lp, l1)" "NextToken l1 = Some (token TA a, l2)"
      "NextToken l2 = Some (token T1 s1, l3)" "NextToken l3 = Some (token TB b, l4)"
      "NextToken l4 = Some (token RightParen rp, l5)" "NextToken l5 = Some (token T2 s2, l6)"
      "NextToken l6 = Some (token TC c, l7)" "NextToken l7 = Some (token EOF e1, l8)"
      "NextToken l8 = Some (t9, l9)"
    and A: "TA = Tok_Identifier \<and> LA = Ident a \<or> TA = Tok_Number \<and> pf a = Some va \<and> LA = Num a va"
    and B: "TB = Tok_Identifier \<and> LB = Ident b \<or> TB = Tok_Number \<and> pf b = Some vb \<and> LB = Num b vb"
    and C: "TC = Tok_Identifier \<and> LC = Ident c \<or> TC = Tok_Number \<and> pf c = Some vc \<and> LC = Num c vc"
    and ops: "binary_op T1" "binary_op T2"
  shows "and_then (parser_New l0) (ParseProgram pf (20 + n)) =
         Return (\<lparr>Stmts = [ExpressionStmt (token LeftParen lp)
                    (Infix (Infix LA T1 s1 LB) T2 s2 LC)]\<rparr>,
                 \<lparr>lexer = l9, currToken = token EOF e1, peekToken = t9, errors = []\<rparr>)"
proof -
  note f1 = binary_op_facts[OF ops(1)] and f2 = binary_op_facts[OF ops(2)]
  show ?thesis
    using A B C
    by (elim disjE conjE) (simp_all add: lex f1 f2 parser_steps)
qed

lemma group_right_core:
  assumes lex: "NextToken l0 = Some (token TA a, l1)" "NextToken l1 = Some (token T1 s1, l2)"
      "NextToken l2 = Some (token LeftParen lp, l3)" "NextToken l3 = Some (token TB b, l4)"
      "NextToken l4 = Some (token T2 s2, l5)" "NextToken l5 = Some (token TC c, l6)"
      "NextToken l6 = Some (token RightParen rp, l7)" "NextToken l7 = Some (token EOF e1, l8)"
      "NextToken l8 = Some (t9, l9)"
    and A: "TA = Tok_Identifier \<and> LA = Ident a \<or> TA = Tok_Number \<and> pf a = Some va \<and> LA = Num a va"
    and B: "TB = Tok_Identifier \<and> LB = Ident b \<or> TB = Tok_Number \<and> pf b = Some vb \<and> LB = Num b vb"
    and C: "TC = Tok_Identifier \<and> LC = Ident c \<or> TC = Tok_Number \<and> pf c = Some vc \<and> LC = Num c vc"
    and ops: "binary_op T1" "binary_op T2"
  shows "and_then (parser_New l0) (ParseProgram pf (20 + n)) =
         Return (\<lparr>Stmts = [ExpressionStmt (token TA a)
                    (Infix LA T1 s1 (Infix LB T2 s2 LC))]\<rparr>,
                 \<lparr>lexer = l9, currToken = token EOF e1, peekToken = t9, errors = []\<rparr>)"
proof -
  note f1 = binary_op_facts[OF ops(1)] and f2 = binary_op_facts[OF ops(2)]
  show ?thesis
    using A B C
    by (elim disjE conjE) (simp_all add: lex f1 f2 parser_steps)
qed


lemma leaf_String: "operand pf w \<Longrightarrow> Option.bind (leaf pf w) Expr_String = Some w"
  by (auto simp: operand_def leaf_def split: if_splits)

lemma operand_split:
  assumes "operand pf w"
  obtains T L v where "operand_tok w = token T w" "leaf pf w = L"
    "T = Tok_Identifier \<and> L = Ident w \<or> T = Tok_Number \<and> pf w = Some v \<and> L = Num w v"
  using operand_cases[OF assms] by blast

lemma NextToken_sp_operand:
  assumes "operand pf w"
    and "case rest of [] \<Rightarrow> True | d # _ \<Rightarrow> \<not> IsAlpha d \<and> \<not> IsNumeric d \<and> d \<noteq> dot"
  shows "NextToken (lexer_on pre (CHR '' '' # w @ rest)) = Some (operand_tok w, lexer_on (pre @ CHR '' '' # w) rest)"
  using NextToken_operand[OF assms, of "pre @ '' ''"] by (simp add: NextToken_space)

lemma NextToken_sp_op:
  assumes "binary_op T" and "rest = [] \<or> hd rest = CHR '' ''"
  shows "NextToken (lexer_on pre (CHR '' '' # op_text T @ rest)) =
         Some (token T (op_text T), lexer_on (pre @ CHR '' '' # op_text T) rest)"
  using NextToken_op[OF assms, of "pre @ '' ''"] by (simp add: NextToken_space)

lemma NextToken_on_end:
  "NextToken (lexer_on pre []) = Some (token EOF [], lexer_at pre (Suc (length pre)))"
  "NextToken (lexer_at pre (Suc (length pre))) = Some (token EOF [], lexer_at pre (Suc (Suc (length pre))))"
  using NextToken_end[of pre] NextToken_past_end[of pre "Suc (length pre)"] by simp_all

lemma delimiters [simp]:
  "\<not> IsAlpha CHR '' ''" "\<not> IsNumeric CHR '' ''" "\<not> IsAlpha CHR '')''" "\<not> IsNumeric CHR '')''"
  by (simp_all add: IsAlpha_def IsNumeric_def)

lemma parse_two_operators:
  assumes a: "operand pf a" and b: "operand pf b" and c: "operand pf c"
    and t1: "binary_op T1" and t2: "binary_op T2"
  shows "\<exists>p. parse pf (20 + n) (Join [a, op_text T1, b, op_text T2, c] '' '') =
           Return (\<lparr>Stmts = [ExpressionStmt (operand_tok a)
                      (if precedence_of T1 < precedence_of T2
                       then Infix (leaf pf a) T1 (op_text T1) (Infix (leaf pf b) T2 (op_text T2) (leaf pf c))
                       else Infix (Infix (leaf pf a) T1 (op_text T1) (leaf pf b)) T2 (op_text T2) (leaf pf c))]\<rparr>, p)
         \<and> errors p = []"
proof -
  let ?o1 = "op_text T1" and ?o2 = "op_text T2"
  let ?src = "a @ CHR '' '' # ?o1 @ CHR '' '' # b @ CHR '' '' # ?o2 @ CHR '' '' # c"
  have src: "Join [a, op_text T1, b, op_text T2, c] '' '' = ?src" by simp
  let ?p1 = "a" 
  let ?p2 = "a @ CHR '' '' # ?o1"
  let ?p3 = "a @ CHR '' '' # ?o1 @ CHR '' '' # b"
  let ?p4 = "a @ CHR '' '' # ?o1 @ CHR '' '' # b @ CHR '' '' # ?o2"
  have n1: "NextToken (lexer_New ?src) = Some (operand_tok a, lexer_on ?p1 (CHR '' '' # ?o1 @ CHR '' '' # b @ CHR '' '' # ?o2 @ CHR '' '' # c))"
    using NextToken_operand[OF a, of "CHR '' '' # ?o1 @ CHR '' '' # b @ CHR '' '' # ?o2 @ CHR '' '' # c" "[]"]
    by (simp add: lexer_New_on)
  have n2: "NextToken (lexer_on ?p1 (CHR '' '' # ?o1 @ CHR '' '' # b @ CHR '' '' # ?o2 @ CHR '' '' # c))
           = Some (token T1 ?o1, lexer_on ?p2 (CHR '' '' # b @ CHR '' '' # ?o2 @ CHR '' '' # c))"
    using NextToken_sp_op[OF t1, of "CHR '' '' # b @ CHR '' '' # ?o2 @ CHR '' '' # c" ?p1] by simp
  have n3: "NextToken (lexer_on ?p2 (CHR '' '' # b @ CHR '' '' # ?o2 @ CHR '' '' # c))
           = Some (operand_tok b, lexer_on ?p3 (CHR '' '' # ?o2 @ CHR '' '' # c))"
    using NextToken_sp_operand[OF b, of "CHR '' '' # ?o2 @ CHR '' '' # c" ?p2] by simp
  have n4: "NextToken (lexer_on ?p3 (CHR '' '' # ?o2 @ CHR '' '' # c))
           = Some (token T2 ?o2, lexer_on ?p4 (CHR '' '' # c))"
    using NextToken_sp_op[OF t2, of "CHR '' '' # c" ?p3] by simp
  have n5: "NextToken (lexer_on ?p4 (CHR '' '' # c)) = Some (operand_tok c, lexer_on ?src [])"
    using NextToken_sp_operand[OF c, of "[]" ?p4] by simp
  note n6 = NextToken_on_end[of ?src]
  from a obtain TA LA va where A: "operand_tok a = token TA a" "leaf pf a = LA"
    "TA = Tok_Identifier \<and> LA = Ident a \<or> TA = Tok_Number \<and> pf a = Some va \<and> LA = Num a va"
    by (rule operand_split)
  from b obtain TB LB vb where B: "operand_tok b = token TB b" "leaf pf b = LB"
    "TB = Tok_Identifier \<and> LB = Ident b \<or> TB = Tok_Number \<and> pf b = Some vb \<and> LB = Num b vb"
    by (rule operand_split)
  from c obtain TC LC vc where C: "operand_tok c = token TC c" "leaf pf c = LC"
    "TC = Tok_Identifier \<and> LC = Ident c \<or> TC = Tok_Number \<and> pf c = Some vc \<and> LC = Num c vc"
    by (rule operand_split)
  from two_operators_core[OF n1[unfolded A(1)] n2 n3[unfolded B(1)] n4 n5[unfolded C(1)] n6 A(3) B(3) C(3) t1 t2, of n]
  show ?thesis
    unfolding src parse_def A B C by simp
qed


lemma NextToken_sp_paren:
  "NextToken (lexer_on pre (CHR '' '' # CHR ''('' # rest)) =
     Some (token LeftParen ''('', lexer_on (pre @ '' ('') rest)"
  using NextToken_paren(1)[of "pre @ '' ''" rest] by (simp add: NextToken_space)

lemma parse_group_left:
  assumes a: "operand pf a" and b: "operand pf b" and c: "operand pf c"
    and t1: "binary_op T1" and t2: "binary_op T2"
  shows "\<exists>p. parse pf (20 + n) (''('' @ a @ '' '' @ op_text T1 @ '' '' @ b @ '') '' @ op_text T2 @ '' '' @ c) =
           Return (\<lparr>Stmts = [ExpressionStmt (token LeftParen ''('')
                      (Infix (Infix (leaf pf a) T1 (op_text T1) (leaf pf b)) T2 (op_text T2) (leaf pf c))]\<rparr>, p)
         \<and> errors p = []"
proof -
  let ?o1 = "op_text T1" and ?o2 = "op_text T2"
  let ?src = "CHR ''('' # a @ CHR '' '' # ?o1 @ CHR '' '' # b @ CHR '')'' # CHR '' '' # ?o2 @ CHR '' '' # c"
  have src: "''('' @ a @ '' '' @ op_text T1 @ '' '' @ b @ '') '' @ op_text T2 @ '' '' @ c = ?src" by simp
  let ?p0 = "''(''"
  let ?p1 = "CHR ''('' # a"
  let ?p2 = "CHR ''('' # a @ CHR '' '' # ?o1"
  let ?p3 = "CHR ''('' # a @ CHR '' '' # ?o1 @ CHR '' '' # b"
  let ?p4 = "CHR ''('' # a @ CHR '' '' # ?o1 @ CHR '' '' # b @ '')''"
  let ?p5 = "CHR ''('' # a @ CHR '' '' # ?o1 @ CHR '' '' # b @ CHR '')'' # CHR '' '' # ?o2"
  have n0: "NextToken (lexer_New ?src) = Some (token LeftParen ''('',
              lexer_on ?p0 (a @ CHR '' '' # ?o1 @ CHR '' '' # b @ CHR '')'' # CHR '' '' # ?o2 @ CHR '' '' # c))"
    using NextToken_paren(1)[of "[]" "a @ CHR '' '' # ?o1 @ CHR '' '' # b @ CHR '')'' # CHR '' '' # ?o2 @ CHR '' '' # c"]
    by (simp add: lexer_New_on)
  have n1: "NextToken (lexer_on ?p0 (a @ CHR '' '' # ?o1 @ CHR '' '' # b @ CHR '')'' # CHR '' '' # ?o2 @ CHR '' '' # c))
           = Some (operand_tok a, lexer_on ?p1 (CHR '' '' # ?o1 @ CHR '' '' # b @ CHR '')'' # CHR '' '' # ?o2 @ CHR '' '' # c))"
    using NextToken_operand[OF a, of "CHR '' '' # ?o1 @ CHR '' '' # b @ CHR '')'' # CHR '' '' # ?o2 @ CHR '' '' # c" ?p0]
    by simp
  have n2: "NextToken (lexer_on ?p1 (CHR '' '' # ?o1 @ CHR '' '' # b @ CHR '')'' # CHR '' '' # ?o2 @ CHR '' '' # c))
           = Some (token T1 ?o1, lexer_on ?p2 (CHR '' '' # b @ CHR '')'' # CHR '' '' # ?o2 @ CHR '' '' # c))"
    using NextToken_sp_op[OF t1, of "CHR '' '' # b @ CHR '')'' # CHR '' '' # ?o2 @ CHR '' '' # c" ?p1] by simp
  have n3: "NextToken (lexer_on ?p2 (CHR '' '' # b @ CHR '')'' # CHR '' '' # ?o2 @ CHR '' '' # c))
           = Some (operand_tok b, lexer_on ?p3 (CHR '')'' # CHR '' '' # ?o2 @ CHR '' '' # c))"
    using NextToken_sp_operand[OF b, of "CHR '')'' # CHR '' '' # ?o2 @ CHR '' '' # c" ?p2] by simp
  have n4: "NextToken (lexer_on ?p3 (CHR '')'' # CHR '' '' # ?o2 @ CHR '' '' # c))
           = Some (token RightParen '')'', lexer_on ?p4 (CHR '' '' # ?o2 @ CHR '' '' # c))"
    using NextToken_paren(2)[of ?p3 "CHR '' '' # ?o2 @ CHR '' '' # c"] by simp
  have n5: "NextToken (lexer_on ?p4 (CHR '' '' # ?o2 @ CHR '' '' # c))
           = Some (token T2 ?o2, lexer_on ?p5 (CHR '' '' # c))"
    using NextToken_sp_op[OF t2, of "CHR '' '' # c" ?p4] by simp
  have n6: "NextToken (lexer_on ?p5 (CHR '' '' # c)) = Some (operand_tok c, lexer_on ?src [])"
    using NextToken_sp_operand[OF c, of "[]" ?p5] by simp
  note n7 = NextToken_on_end[of ?src]
  from a obtain TA LA va where A: "operand_tok a = token TA a" "leaf pf a = LA"
    "TA = Tok_Identifier \<and> LA = Ident a \<or> TA = Tok_Number \<and> pf a = Some va \<and> LA = Num a va"
    by (rule operand_split)
  from b obtain TB LB vb where B: "operand_tok b = token TB b" "leaf pf b = LB"
    "TB = Tok_Identifier \<and> LB = Ident b \<or> TB = Tok_Number \<and> pf b = Some vb \<and> LB = Num b vb"
    by (rule operand_split)
  from c obtain TC LC vc where C: "operand_tok c = token TC c" "leaf pf c = LC"
    "TC = Tok_Identifier \<and> LC = Ident c \<or> TC = Tok_Number \<and> pf c = Some vc \<and> LC = Num c vc"
    by (rule operand_split)
  from group_left_core[OF n0 n1[unfolded A(1)] n2 n3[unfolded B(1)] n4 n5 n6[unfolded C(1)] n7 A(3) B(3) C(3) t1 t2, of n]
  show ?thesis
    unfolding src parse_def A B C by simp
qed

lemma parse_group_right:
  assumes a: "operand pf a" and b: "operand pf b" and c: "operand pf c"
    and t1: "binary_op T1" and t2: "binary_op T2"
  shows "\<exists>p. parse pf (20 + n) (a @ '' '' @ op_text T1 @ '' ('' @ b @ '' '' @ op_text T2 @ '' '' @ c @ '')'') =
           Return (\<lparr>Stmts = [ExpressionStmt (operand_tok a)
                      (Infix (leaf pf a) T1 (op_text T1) (Infix (leaf pf b) T2 (op_text T2) (leaf pf c)))]\<rparr>, p)
         \<and> errors p = []"
proof -
  let ?o1 = "op_text T1" and ?o2 = "op_text T2"
  let ?src = "a @ CHR '' '' # ?o1 @ CHR '' '' # CHR ''('' # b @ CHR '' '' # ?o2 @ CHR '' '' # c @ '')''"
  have src: "a @ '' '' @ op_text T1 @ '' ('' @ b @ '' '' @ op_text T2 @ '' '' @ c @ '')'' = ?src" by simp
  let ?p1 = "a"
  let ?p2 = "a @ CHR '' '' # ?o1"
  let ?p3 = "a @ CHR '' '' # ?o1 @ '' (''"
  let ?p4 = "a @ CHR '' '' # ?o1 @ CHR '' '' # CHR ''('' # b"
  let ?p5 = "a @ CHR '' '' # ?o1 @ CHR '' '' # CHR ''('' # b @ CHR '' '' # ?o2"
  let ?p6 = "a @ CHR '' '' # ?o1 @ CHR '' '' # CHR ''('' # b @ CHR '' '' # ?o2 @ CHR '' '' # c"
  have n1: "NextToken (lexer_New ?src) = Some (operand_tok a,
              lexer_on ?p1 (CHR '' '' # ?o1 @ CHR '' '' # CHR ''('' # b @ CHR '' '' # ?o2 @ CHR '' '' # c @ '')''))"
    using NextToken_operand[OF a, of "CHR '' '' # ?o1 @ CHR '' '' # CHR ''('' # b @ CHR '' '' # ?o2 @ CHR '' '' # c @ '')''" "[]"]
    by (simp add: lexer_New_on)
  have n2: "NextToken (lexer_on ?p1 (CHR '' '' # ?o1 @ CHR '' '' # CHR ''('' # b @ CHR '' '' # ?o2 @ CHR '' '' # c @ '')''))
           = Some (token T1 ?o1, lexer_on ?p2 (CHR '' '' # CHR ''('' # b @ CHR '' '' # ?o2 @ CHR '' '' # c @ '')''))"
    using NextToken_sp_op[OF t1, of "CHR '' '' # CHR ''('' # b @ CHR '' '' # ?o2 @ CHR '' '' # c @ '')''" ?p1] by simp
  have n3: "NextToken (lexer_on ?p2 (CHR '' '' # CHR ''('' # b @ CHR '' '' # ?o2 @ CHR '' '' # c @ '')''))
           = Some (token LeftParen ''('', lexer_on ?p3 (b @ CHR '' '' # ?o2 @ CHR '' '' # c @ '')''))"
    using NextToken_sp_paren[of ?p2 "b @ CHR '' '' # ?o2 @ CHR '' '' # c @ '')''"] by simp
  have n4: "NextToken (lexer_on ?p3 (b @ CHR '' '' # ?o2 @ CHR '' '' # c @ '')''))
           = Some (operand_tok b, lexer_on ?p4 (CHR '' '' # ?o2 @ CHR '' '' # c @ '')''))"
    using NextToken_operand[OF b, of "CHR '' '' # ?o2 @ CHR '' '' # c @ '')''" ?p3] by simp
  have n5: "NextToken (lexer_on ?p4 (CHR '' '' # ?o2 @ CHR '' '' # c @ '')''))
           = Some (token T2 ?o2, lexer_on ?p5 (CHR '' '' # c @ '')''))"
    using NextToken_sp_op[OF t2, of "CHR '' '' # c @ '')''" ?p4] by simp
  have n6: "NextToken (lexer_on ?p5 (CHR '' '' # c @ '')'')) = Some (operand_tok c, lexer_on ?p6 '')'')"
    using NextToken_sp_operand[OF c, of "'')''" ?p5] by simp
  have n7: "NextToken (lexer_on ?p6 '')'') = Some (token RightParen '')'', lexer_on ?src [])"
    using NextToken_paren(2)[of ?p6 "[]"] by simp
  note n8 = NextToken_on_end[of ?src]
  from a obtain TA LA va where A: "operand_tok a = token TA a" "leaf pf a = LA"
    "TA = Tok_Identifier \<and> LA = Ident a \<or> TA = Tok_Number \<and> pf a = Some va \<and> LA = Num a va"
    by (rule operand_split)
  from b obtain TB LB vb where B: "operand_tok b = token TB b" "leaf pf b = LB"
    "TB = Tok_Identifier \<and> LB = Ident b \<or> TB = Tok_Number \<and> pf b = Some vb \<and> LB = Num b vb"
    by (rule operand_split)
  from c obtain TC LC vc where C: "operand_tok c = token TC c" "leaf pf c = LC"
    "TC = Tok_Identifier \<and> LC = Ident c \<or> TC = Tok_Number \<and> pf c = Some vc \<and> LC = Num c vc"
    by (rule operand_split)
  from group_right_core[OF n1[unfolded A(1)] n2 n3 n4[unfolded B(1)] n5 n6[unfolded C(1)] n7 n8 A(3) B(3) C(3) t1 t2, of n]
  show ?thesis
    unfolding src parse_def A B C by simp
qed

section \<open>Precedence and associativity\<close>

lemma additive_facts: "additive T \<Longrightarrow> binary_op T \<and> precedence_of T = SUM_prec"
  by (auto simp: additive_def binary_op_def precedence_of_def)

lemma multiplicative_facts: "multiplicative T \<Longrightarrow> binary_op T \<and> precedence_of T = PRODUCT"
  by (auto simp: multiplicative_def binary_op_def precedence_of_def)

lemma SUM_less_PRODUCT: "SUM_prec < PRODUCT" "\<not> PRODUCT < SUM_prec"
  by (simp_all add: SUM_prec_def PRODUCT_def)

text \<open>
  Claim C1. Let \<open>a\<close>, \<open>b\<close>, \<open>c\<close> be operands, \<open>Ta\<close> an additive operator (\<open>+\<close> or \<open>-\<close>)
  and \<open>Tm\<close> a multiplicative one (\<open>*\<close>, \<open>/\<close> or \<open>%\<close>). For every bound of at least 20 on
  the depth of the calls, parsing records no diagnostic and yields one statement:
  \<^item> \<open>a Ta b Tm c\<close> yields the tree \<open>a Ta (b Tm c)\<close>, rendered \<open>(a Ta (b Tm c))\<close>;
  \<^item> \<open>a Tm b Ta c\<close> yields the tree \<open>(a Tm b) Ta c\<close>, rendered \<open>((a Tm b) Ta c)\<close>:
    the multiplicative operator binds more tightly on either side;
  \<^item> \<open>(a Ta b) Tm c\<close> yields the tree \<open>(a Ta b) Tm c\<close>, rendered \<open>((a Ta b) Tm c)\<close>,
    and \<open>a Tm (b Ta c)\<close> yields \<open>a Tm (b Ta c)\<close>: a parenthesized group overrides
    the binding.
  The witness is the instance \<open>1\<close>, \<open>2\<close>, \<open>3\<close>, \<open>+\<close>, \<open>*\<close>: \<open>1 + 2 * 3\<close> renders as
  \<open>(1 + (2 * 3))\<close> and \<open>(1 + 2) * 3\<close> as \<open>((1 + 2) * 3)\<close>.
\<close>

theorem precedence_binding:
  assumes a: "operand ParseFloat a" and b: "operand ParseFloat b" and c: "operand ParseFloat c"
    and Ta: "additive Ta" and Tm: "multiplicative Tm"
  shows
   "(\<exists>prog p. parse ParseFloat (20 + n) (Join [a, op_text Ta, b, op_text Tm, c] '' '') = Return (prog, p) \<and>
       errors p = [] \<and>
       prog = \<lparr>Stmts = [ExpressionStmt (operand_tok a)
                 (Infix (leaf ParseFloat a) Ta (op_text Ta)
                    (Infix (leaf ParseFloat b) Tm (op_text Tm) (leaf ParseFloat c)))]\<rparr> \<and>
       Program_String prog =
         Some (''('' @ a @ '' '' @ op_text Ta @ '' ('' @ b @ '' '' @ op_text Tm @ '' '' @ c @ ''))'')) \<and>
    (\<exists>prog p. parse ParseFloat (20 + n) (Join [a, op_text Tm, b, op_text Ta, c] '' '') = Return (prog, p) \<and>
       errors p = [] \<and>
       prog = \<lparr>Stmts = [ExpressionStmt (operand_tok a)
                 (Infix (Infix (leaf ParseFloat a) Tm (op_text Tm) (leaf ParseFloat b))
                    Ta (op_text Ta) (leaf ParseFloat c))]\<rparr> \<and>
       Program_String prog =
         Some (''(('' @ a @ '' '' @ op_text Tm @ '' '' @ b @ '') '' @ op_text Ta @ '' '' @ c @ '')'')) \<and>
    (\<exists>prog p. parse ParseFloat (20 + n)
                 (''('' @ a @ '' '' @ op_text Ta @ '' '' @ b @ '') '' @ op_text Tm @ '' '' @ c) = Return (prog, p) \<and>
       errors p = [] \<and>
       prog = \<lparr>Stmts = [ExpressionStmt (token LeftParen ''('')
                 (Infix (Infix (leaf ParseFloat a) Ta (op_text Ta) (leaf ParseFloat b))
                    Tm (op_text Tm) (leaf ParseFloat c))]\<rparr> \<and>
       Program_String prog =
         Some (''(('' @ a @ '' '' @ op_text Ta @ '' '' @ b @ '') '' @ op_text Tm @ '' '' @ c @ '')'')) \<and>
    (\<exists>prog p. parse ParseFloat (20 + n)
                 (a @ '' '' @ op_text Tm @ '' ('' @ b @ '' '' @ op_text Ta @ '' '' @ c @ '')'') = Return (prog, p) \<and>
       errors p = [] \<and>
       prog = \<lparr>Stmts = [ExpressionStmt (operand_tok a)
                 (Infix (leaf ParseFloat a) Tm (op_text Tm)
                    (Infix (leaf ParseFloat b) Ta (op_text Ta) (leaf ParseFloat c)))]\<rparr> \<and>
       Program_String prog =
         Some (''('' @ a @ '' '' @ op_text Tm @ '' ('' @ b @ '' '' @ op_text Ta @ '' '' @ c @ ''))''))"
proof -
  note fa = additive_facts[OF Ta] and fm = multiplicative_facts[OF Tm]
  note str = leaf_String[OF a] leaf_String[OF b] leaf_String[OF c]
  have 1: "\<exists>prog p. parse ParseFloat (20 + n) (Join [a, op_text Ta, b, op_text Tm, c] '' '') = Return (prog, p) \<and>
       errors p = [] \<and>
       prog = \<lparr>Stmts = [ExpressionStmt (operand_tok a)
                 (Infix (leaf ParseFloat a) Ta (op_text Ta)
                    (Infix (leaf ParseFloat b) Tm (op_text Tm) (leaf ParseFloat c)))]\<rparr> \<and>
       Program_String prog =
         Some (''('' @ a @ '' '' @ op_text Ta @ '' ('' @ b @ '' '' @ op_text Tm @ '' '' @ c @ ''))'')"
    using parse_two_operators[OF a b c, of Ta Tm n] fa fm str
    by (auto simp: SUM_less_PRODUCT Program_String_def)
  have 2: "\<exists>prog p. parse ParseFloat (20 + n) (Join [a, op_text Tm, b, op_text Ta, c] '' '') = Return (prog, p) \<and>
       errors p = [] \<and>
       prog = \<lparr>Stmts = [ExpressionStmt (operand_tok a)
                 (Infix (Infix (leaf ParseFloat a) Tm (op_text Tm) (leaf ParseFloat b))
                    Ta (op_text Ta) (leaf ParseFloat c))]\<rparr> \<and>
       Program_String prog =
         Some (''(('' @ a @ '' '' @ op_text Tm @ '' '' @ b @ '') '' @ op_text Ta @ '' '' @ c @ '')'')"
    using parse_two_operators[OF a b c, of Tm Ta n] fa fm str
    by (auto simp: SUM_less_PRODUCT Program_String_def)
  have 3: "\<exists>prog p. parse ParseFloat (20 + n)
                 (''('' @ a @ '' '' @ op_text Ta @ '' '' @ b @ '') '' @ op_text Tm @ '' '' @ c) = Return (prog, p) \<and>
       errors p = [] \<and>
       prog = \<lparr>Stmts = [ExpressionStmt (token LeftParen ''('')
                 (Infix (Infix (leaf ParseFloat a) Ta (op_text Ta) (leaf ParseFloat b))
                    Tm (op_text Tm) (leaf ParseFloat c))]\<rparr> \<and>
       Program_String prog =
         Some (''(('' @ a @ '' '' @ op_text Ta @ '' '' @ b @ '') '' @ op_text Tm @ '' '' @ c @ '')'')"
    using parse_group_left[OF a b c, of Ta Tm n] fa fm str
    by (auto simp: Program_String_def)
  have 4: "\<exists>prog p. parse ParseFloat (20 + n)
                 (a @ '' '' @ op_text Tm @ '' ('' @ b @ '' '' @ op_text Ta @ '' '' @ c @ '')'') = Return (prog, p) \<and>
       errors p = [] \<and>
       prog = \<lparr>Stmts = [ExpressionStmt (operand_tok a)
                 (Infix (leaf ParseFloat a) Tm (op_text Tm)
                    (Infix (leaf ParseFloat b) Ta (op_text Ta) (leaf ParseFloat c)))]\<rparr> \<and>
       Program_String prog =
         Some (''('' @ a @ '' '' @ op_text Tm @ '' ('' @ b @ '' '' @ op_text Ta @ '' '' @ c @ ''))'')"
    using parse_group_right[OF a b c, of Tm Ta n] fa fm str
    by (auto simp: Program_String_def)
  from 1 2 3 4 show ?thesis by (intro conjI)
qed

theorem precedence_binding_witness:
  "(\<exists>prog p. parse (\<lambda>s. Some (0::nat)) (20 + 0) ''1 + 2 * 3'' = Return (prog, p) \<and> errors p = [] \<and>
      prog = \<lparr>Stmts = [ExpressionStmt (token Tok_Number ''1'')
                (Infix (Num ''1'' 0) Plus ''+'' (Infix (Num ''2'' 0) Star ''*'' (Num ''3'' 0)))]\<rparr> \<and>
      Program_String prog = Some ''(1 + (2 * 3))'') \<and>
   (\<exists>prog p. parse (\<lambda>s. Some (0::nat)) (20 + 0) ''1 * 2 + 3'' = Return (prog, p) \<and> errors p = [] \<and>
      prog = \<lparr>Stmts = [ExpressionStmt (token Tok_Number ''1'')
                (Infix (Infix (Num ''1'' 0) Star ''*'' (Num ''2'' 0)) Plus ''+'' (Num ''3'' 0))]\<rparr> \<and>
      Program_String prog = Some ''((1 * 2) + 3)'') \<and>
   (\<exists>prog p. parse (\<lambda>s. Some (0::nat)) (20 + 0) ''(1 + 2) * 3'' = Return (prog, p) \<and> errors p = [] \<and>
      prog = \<lparr>Stmts = [ExpressionStmt (token LeftParen ''('')
                (Infix (Infix (Num ''1'' 0) Plus ''+'' (Num ''2'' 0)) Star ''*'' (Num ''3'' 0))]\<rparr> \<and>
      Program_String prog = Some ''((1 + 2) * 3)'') \<and>
   (\<exists>prog p. parse (\<lambda>s. Some (0::nat)) (20 + 0) ''1 * (2 + 3)'' = Return (prog, p) \<and> errors p = [] \<and>
      prog = \<lparr>Stmts = [ExpressionStmt (token Tok_Number ''1'')
                (Infix (Num ''1'' 0) Star ''*'' (Infix (Num ''2'' 0) Plus ''+'' (Num ''3'' 0)))]\<rparr> \<and>
      Program_String prog = Some ''(1 * (2 + 3))'')"
  using precedence_binding[where ParseFloat = "\<lambda>s. Some (0::nat)" and a = "''1''" and b = "''2''"
      and c = "''3''" and Ta = Plus and Tm = Star and n = 0]
  by (simp add: operand_def operand_tok_def leaf_def additive_def multiplicative_def IsAlpha_def IsNumeric_def)

text \<open>
  Claim C2. Let \<open>a\<close>, \<open>b\<close>, \<open>c\<close> be operands (identifiers, or numbers that
  \<open>strconv.ParseFloat\<close> accepts) and \<open>T\<close> any operator registered with the infix
  handler \<open>parseInfixExpr\<close>. For every bound of at least 20 on the depth of the calls,
  parsing \<open>a T b T c\<close> records no diagnostic and yields the one statement
  \<open>(a T b) T c\<close>, rendered \<open>((a T b) T c)\<close>. The witness is \<open>1 - 2 - 3\<close>, rendered
  \<open>((1 - 2) - 3)\<close>.
\<close>

theorem left_associativity:
  assumes a: "operand ParseFloat a" and b: "operand ParseFloat b" and c: "operand ParseFloat c"
    and T: "binary_op T"
  shows
   "\<exists>prog p. parse ParseFloat (20 + n) (Join [a, op_text T, b, op_text T, c] '' '') = Return (prog, p) \<and>
       errors p = [] \<and>
       prog = \<lparr>Stmts = [ExpressionStmt (operand_tok a)
                 (Infix (Infix (leaf ParseFloat a) T (op_text T) (leaf ParseFloat b))
                    T (op_text T) (leaf ParseFloat c))]\<rparr> \<and>
       Program_String prog =
         Some (''(('' @ a @ '' '' @ op_text T @ '' '' @ b @ '') '' @ op_text T @ '' '' @ c @ '')'')"
  using parse_two_operators[OF a b c T T, of n] leaf_String[OF a] leaf_String[OF b] leaf_String[OF c]
  by (auto simp: Program_String_def)

theorem left_associativity_witness:
  "\<exists>prog p. parse (\<lambda>s. Some (0::nat)) (20 + 0) ''1 - 2 - 3'' = Return (prog, p) \<and> errors p = [] \<and>
      prog = \<lparr>Stmts = [ExpressionStmt (token Tok_Number ''1'')
                (Infix (Infix (Num ''1'' 0) Minus ''-'' (Num ''2'' 0)) Minus ''-'' (Num ''3'' 0))]\<rparr> \<and>
      Program_String prog = Some ''((1 - 2) - 3)''"
  using left_associativity[where ParseFloat = "\<lambda>s. Some (0::nat)" and a = "''1''" and b = "''2''"
      and c = "''3''" and T = Minus and n = 0]
  by (simp add: operand_def operand_tok_def leaf_def binary_op_def IsAlpha_def IsNumeric_def)

section \<open>The parser on the example inputs\<close>

lemmas parser_eval = parse_def parser_New_def nextToken_def ParseProgram_def parseStatement_def
  parseExpressionStmt_def currTokenIs_def peekTokenIs_def peekPrecedence_def currPrecedence_def
  parseIdentifier_def parseNumberLiteral_def expectPeek_def peekError_def noPrefixParseFnError_def
  LOWEST_def ANDOR_def EQUALS_def LESSGREATEREQUAL_def LESSGREATER_def SUM_prec_def PRODUCT_def
  PREFIX_def CALL_def INDEX_def eval_nat_numeral Program_String_def

text \<open>
  Claim C7. Given that \<open>strconv.ParseFloat\<close> accepts the literals 1, 2 and 3, and for
  every bound of at least 20 on the depth of the calls: parsing \<open>foo(1, 2 + 3)\<close> records
  no diagnostic and yields a call node with the callee \<open>foo\<close> and the two arguments
  \<open>1\<close> and \<open>2 + 3\<close>, rendered \<open>foo(1, (2 + 3))\<close>; parsing \<open>foo()\<close> yields a call node with
  the empty argument list, rendered \<open>foo()\<close>.
\<close>

theorem call_examples:
  assumes "ParseFloat ''1'' = Some v1" "ParseFloat ''2'' = Some v2" "ParseFloat ''3'' = Some v3"
  shows "(\<exists>prog p. parse ParseFloat (20 + n) ''foo(1, 2 + 3)'' = Return (prog, p) \<and> errors p = [] \<and>
            prog = \<lparr>Stmts = [ExpressionStmt (token Tok_Identifier ''foo'')
                      (Some (CallExpr (token LeftParen ''('') (Ident ''foo'')
                         [Num ''1'' v1, Infix (Num ''2'' v2) Plus ''+'' (Num ''3'' v3)]))]\<rparr> \<and>
            Program_String prog = Some ''foo(1, (2 + 3))'') \<and>
         (\<exists>prog p. parse ParseFloat (20 + n) ''foo()'' = Return (prog, p) \<and> errors p = [] \<and>
            prog = \<lparr>Stmts = [ExpressionStmt (token Tok_Identifier ''foo'')
                      (Some (CallExpr (token LeftParen ''('') (Ident ''foo'') []))]\<rparr> \<and>
            Program_String prog = Some ''foo()'')"
proof (rule conjI)
  show "\<exists>prog p. parse ParseFloat (20 + n) ''foo(1, 2 + 3)'' = Return (prog, p) \<and> errors p = [] \<and>
            prog = \<lparr>Stmts = [ExpressionStmt (token Tok_Identifier ''foo'')
                      (Some (CallExpr (token LeftParen ''('') (Ident ''foo'')
                         [Num ''1'' v1, Infix (Num ''2'' v2) Plus ''+'' (Num ''3'' v3)]))]\<rparr> \<and>
            Program_String prog = Some ''foo(1, (2 + 3))''"
    using assms by (simp add: lexer_eval parser_eval)
  show "\<exists>prog p. parse ParseFloat (20 + n) ''foo()'' = Return (prog, p) \<and> errors p = [] \<and>
            prog = \<lparr>Stmts = [ExpressionStmt (token Tok_Identifier ''foo'')
                      (Some (CallExpr (token LeftParen ''('') (Ident ''foo'') []))]\<rparr> \<and>
            Program_String prog = Some ''foo()''"
    by (simp add: lexer_eval parser_eval)
qed

theorem call_examples_witness:
  "(\<exists>prog p. parse (\<lambda>s. Some (0::nat)) (20 + 0) ''foo(1, 2 + 3)'' = Return (prog, p) \<and> errors p = [] \<and>
            prog = \<lparr>Stmts = [ExpressionStmt (token Tok_Identifier ''foo'')
                      (Some (CallExpr (token LeftParen ''('') (Ident ''foo'')
                         [Num ''1'' 0, Infix (Num ''2'' 0) Plus ''+'' (Num ''3'' 0)]))]\<rparr> \<and>
            Program_String prog = Some ''foo(1, (2 + 3))'') \<and>
   (\<exists>prog p. parse (\<lambda>s. Some (0::nat)) (20 + 0) ''foo()'' = Return (prog, p) \<and> errors p = [] \<and>
            prog = \<lparr>Stmts = [ExpressionStmt (token Tok_Identifier ''foo'')
                      (Some (CallExpr (token LeftParen ''('') (Ident ''foo'') []))]\<rparr> \<and>
            Program_String prog = Some ''foo()'')"
  by (rule call_examples[where ParseFloat = "\<lambda>s. Some (0::nat)", OF refl refl refl])

text \<open>
  Claim C10. Rendering is not total on what the parser returns. Whatever
  \<open>strconv.ParseFloat\<close> does, and for every bound of at least 20 on the depth of the
  calls: parsing a lone \<open>-\<close> records a diagnostic and returns a program whose statement
  is a prefix node with a nil operand; parsing \<open>1 +\<close> records a diagnostic and returns
  a program whose statement is an infix node with a nil right operand. Rendering either
  node, or either program, panics.
\<close>

theorem rendering_not_total:
  "(\<exists>prog p. parse ParseFloat (20 + n) ''-'' = Return (prog, p) \<and> errors p \<noteq> [] \<and>
      prog = \<lparr>Stmts = [ExpressionStmt (token Minus ''-'') (Some (PrefixExpr (token Minus ''-'') ''-'' None))]\<rparr> \<and>
      Expr_String (PrefixExpr (token Minus ''-'') ''-'' None :: 'f Expr) = None \<and>
      Program_String prog = None) \<and>
   (\<exists>prog p left. parse ParseFloat (20 + n) ''1 +'' = Return (prog, p) \<and> errors p \<noteq> [] \<and>
      prog = \<lparr>Stmts = [ExpressionStmt (token Tok_Number ''1'')
                (Some (InfixExpr (token Plus ''+'') left ''+'' None))]\<rparr> \<and>
      Expr_String (InfixExpr (token Plus ''+'') left ''+'' None :: 'f Expr) = None \<and>
      Program_String prog = None)"
proof (rule conjI)
  show "\<exists>prog p. parse ParseFloat (20 + n) ''-'' = Return (prog, p) \<and> errors p \<noteq> [] \<and>
      prog = \<lparr>Stmts = [ExpressionStmt (token Minus ''-'') (Some (PrefixExpr (token Minus ''-'') ''-'' None))]\<rparr> \<and>
      Expr_String (PrefixExpr (token Minus ''-'') ''-'' None :: 'f Expr) = None \<and>
      Program_String prog = None"
    by (simp add: lexer_eval parser_eval)
  show "\<exists>prog p left. parse ParseFloat (20 + n) ''1 +'' = Return (prog, p) \<and> errors p \<noteq> [] \<and>
      prog = \<lparr>Stmts = [ExpressionStmt (token Tok_Number ''1'')
                (Some (InfixExpr (token Plus ''+'') left ''+'' None))]\<rparr> \<and>
      Expr_String (InfixExpr (token Plus ''+'') left ''+'' None :: 'f Expr) = None \<and>
      Program_String prog = None"
    by (cases "ParseFloat ''1''") (simp_all add: lexer_eval parser_eval)
qed

theorem rendering_not_total_witness:
  "\<exists>prog p. parse (\<lambda>s. Some (0::nat)) (20 + 0) ''-'' = Return (prog, p) \<and> errors p \<noteq> [] \<and>
      Program_String prog = None"
  using rendering_not_total[where ParseFloat = "\<lambda>s. Some (0::nat)" and n = 0] by blast

section \<open>The parser returns on every input\<close>

lemma returns_Return [simp]: "returns (Return x) Q \<longleftrightarrow> Q x"
  by (simp add: returns_def)

lemma returns_and_then:
  "returns m Q \<Longrightarrow> (\<And>x. Q x \<Longrightarrow> returns (f x) R) \<Longrightarrow> returns (and_then m f) R"
  by (cases m) (simp_all add: returns_def)

lemma returns_weaken: "returns m Q \<Longrightarrow> (\<And>x. Q x \<Longrightarrow> R x) \<Longrightarrow> returns m R"
  by (cases m) (simp_all add: returns_def)

lemma returnsD: "returns m Q \<Longrightarrow> \<exists>x. m = Return x \<and> Q x"
  by (cases m) (simp_all add: returns_def)

lemma NextToken_iter_snoc:
  "NextToken_iter k l = Some (t, l1) \<Longrightarrow> NextToken l1 = Some (t', l2) \<Longrightarrow>
   NextToken_iter (Suc k) l = Some (t', l2)"
proof (induction k arbitrary: l)
  case 0
  then show ?case by simp
next
  case (Suc k)
  from Suc.prems(1) obtain a la where
    a: "NextToken l = Some (a, la)" and "NextToken_iter k la = Some (t, l1)"
    by (auto split: option.splits)
  from Suc.IH[OF this(2) Suc.prems(2)] have "NextToken_iter (Suc k) la = Some (t', l2)" .
  then show ?case using a by (subst NextToken_iter.simps(2)) simp
qed

lemma NextToken_iter_position:
  "NextToken_iter j (lexer_at src i) = Some (t, l') \<Longrightarrow> i + j < position l'"
proof (induction j arbitrary: i)
  case 0
  then show ?case using NextToken_at[of src i] by auto
next
  case (Suc j)
  from NextToken_at[of src i] obtain tk k where
    nt: "NextToken (lexer_at src i) = Some (tk, lexer_at src k)" and "i < k" by blast
  with Suc.prems have "NextToken_iter j (lexer_at src k) = Some (t, l')" by simp
  from Suc.IH[OF this] \<open>i < k\<close> show ?case by simp
qed

lemma tokens_read_bound: "tokens_read src p k \<Longrightarrow> k \<le> position (lexer p)"
  using NextToken_iter_position[of _ src 0]
  by (cases k) (auto simp: tokens_read_def lexer_New_at dest!: NextToken_iter_position)

lemma tokens_read_errors [simp]: "tokens_read src (p\<lparr>errors := es\<rparr>) k = tokens_read src p k"
  by (cases k) (simp_all add: tokens_read_def)

lemma tokens_read_next:
  assumes "tokens_read src p k" "NextToken (lexer p) = Some (tk, l')"
  shows "tokens_read src (p\<lparr>currToken := c, peekToken := tk, lexer := l'\<rparr>) (Suc k)"
proof (cases k)
  case 0
  then show ?thesis using assms by (simp add: tokens_read_def)
next
  case (Suc j)
  then have "NextToken_iter j (lexer_New src) = Some (peekToken p, lexer p)"
    using assms(1) by (simp add: tokens_read_def)
  from NextToken_iter_snoc[OF this assms(2)] show ?thesis
    using Suc by (simp add: tokens_read_def del: NextToken_iter.simps)
qed

lemma parser_ok_errors [simp]: "parser_ok src (p\<lparr>errors := es\<rparr>) = parser_ok src p"
  by (simp add: parser_ok_def)

lemma remaining_errors [simp]: "remaining src (p\<lparr>errors := es\<rparr>) = remaining src p"
  by (simp add: remaining_def)

lemma nextToken_any:
  assumes ok: "parser_ok src p"
  shows "returns (nextToken p) (\<lambda>p'.
           lexer p' = lexer_at src (position (lexer p')) \<and> position (lexer p') \<le> length src + 4 \<and>
           errors p' = errors p \<and> currToken p' = peekToken p \<and> (\<exists>k. tokens_read src p' k) \<and>
           (0 < remaining src p \<longrightarrow> parser_ok src p' \<and> remaining src p' < remaining src p))"
proof -
  let ?i = "position (lexer p)"
  from ok have l: "lexer p = lexer_at src ?i" and i3: "?i \<le> length src + 3"
    and pk: "length src + 2 \<le> ?i \<longrightarrow> Type (peekToken p) = EOF"
    by (simp_all add: parser_ok_def)
  from NextToken_at[of src ?i] obtain tk k where
    nt: "NextToken (lexer_at src ?i) = Some (tk, lexer_at src k)" and ik: "?i < k"
    and kb: "k \<le> Suc (max ?i (length src))"
    and e: "length src \<le> ?i \<longrightarrow> tk = token EOF [] \<and> k = Suc ?i"
    by blast
  have nx: "nextToken p = Return (p\<lparr>currToken := peekToken p, peekToken := tk, lexer := lexer_at src k\<rparr>)"
    using nt l by (simp add: nextToken_def)
  from ok obtain j where "tokens_read src p j" by (auto simp: parser_ok_def)
  from tokens_read_next[OF this, of tk "lexer_at src k" "peekToken p"] nt l
  have tr: "\<exists>k'. tokens_read src
              (p\<lparr>currToken := peekToken p, peekToken := tk, lexer := lexer_at src k\<rparr>) k'"
    by auto
  show ?thesis
    unfolding nx using ik kb e i3 pk tr
    by (auto simp: parser_ok_def remaining_def max_def split: if_splits)
qed

lemma nextToken_ok:
  assumes ok: "parser_ok src p" and ne: "Type (currToken p) \<noteq> EOF \<or> Type (peekToken p) \<noteq> EOF"
  shows "returns (nextToken p) (\<lambda>p'. parser_ok src p' \<and> remaining src p' < remaining src p \<and>
           errors p' = errors p \<and> currToken p' = peekToken p)"
proof -
  have "0 < remaining src p" using ok ne by (auto simp: parser_ok_def remaining_def)
  with nextToken_any[OF ok] show ?thesis by (auto elim!: returns_weaken)
qed

lemma advances_refl: "parser_ok src p \<Longrightarrow> advances src p p"
  by (simp add: advances_def)

lemma advances_trans: "advances src p p1 \<Longrightarrow> advances src p1 p2 \<Longrightarrow> advances src p p2"
  by (auto simp: advances_def)

lemma advances_step:
  "parser_ok src p' \<Longrightarrow> remaining src p' < remaining src p \<Longrightarrow> errors p' = errors p \<Longrightarrow> advances src p p'"
  by (simp add: advances_def)

lemma advances_error: "parser_ok src p \<Longrightarrow> advances src p (p\<lparr>errors := errors p @ [m]\<rparr>)"
  by (simp add: advances_def)

lemma strict_prefix_snoc [simp]: "strict_prefix es (es @ [m])"
  by (simp add: strict_prefix_def)

lemma grown_then: "strict_prefix (errors p) (errors p1) \<Longrightarrow> advances src p1 p2 \<Longrightarrow> strict_prefix (errors p) (errors p2)"
  by (auto simp: advances_def dest: prefix_order.less_le_trans)

lemma then_grown: "advances src p p1 \<Longrightarrow> strict_prefix (errors p1) (errors p2) \<Longrightarrow> strict_prefix (errors p) (errors p2)"
  by (auto simp: advances_def dest: prefix_order.le_less_trans)

lemma complete_simps [simp]:
  "\<not> complete None"
  "complete (Some (NumberLiteral t v))"
  "complete (Some (Identifier t s))"
  "complete (Some (PrefixExpr t op r)) = complete r"
  "complete (Some (InfixExpr t l op r)) = (complete l \<and> complete r)"
  by (auto simp: complete_def split: option.splits)

lemma those_map_Some: "those (map f xs) \<noteq> None \<longleftrightarrow> list_all (\<lambda>x. f x \<noteq> None) xs"
  by (induction xs) (auto split: option.splits)

lemma complete_Call [simp]:
  "complete (Some (CallExpr t f args)) = (complete f \<and> list_all complete args)"
proof -
  have "list_all complete args = (those (map (\<lambda>arg. Option.bind arg Expr_String) args) \<noteq> None)"
    unfolding those_map_Some by (simp add: complete_def[abs_def])
  then show ?thesis by (auto simp: complete_def split: option.splits)
qed

lemma expectPeek_ok:
  assumes ok: "parser_ok src p" and t: "t \<noteq> EOF"
  shows "returns (expectPeek t p)
           (\<lambda>(found, p'). advances src p p' \<and> (found \<or> strict_prefix (errors p) (errors p')))"
proof (cases "peekTokenIs t p")
  case True
  then have "Type (currToken p) \<noteq> EOF \<or> Type (peekToken p) \<noteq> EOF"
    using t by (simp add: peekTokenIs_def)
  from nextToken_ok[OF ok this] show ?thesis
    using True by (auto simp: expectPeek_def intro: advances_step elim!: returns_and_then)
next
  case False
  then show ?thesis using ok by (simp add: expectPeek_def peekError_def advances_error)
qed

lemma parsed_leaf:
  "parser_ok src p \<Longrightarrow> parsed src p (parseIdentifier p)"
  "parser_ok src p \<Longrightarrow> parsed src p (parseNumberLiteral pf p)"
  by (auto simp: parsed_def parseIdentifier_def parseNumberLiteral_def advances_refl advances_error
        split: option.splits)

lemma parsed_then_continued:
  "parsed src p (left, p1) \<Longrightarrow> continued src left p1 r \<Longrightarrow> parsed src p r"
  by (auto simp: parsed_def continued_def intro: advances_trans grown_then then_grown)

lemma continued_then_continued:
  "advances src p p1 \<Longrightarrow> continued src left p1 (left', p2) \<Longrightarrow> continued src left' p2 r \<Longrightarrow>
   continued src left p r"
  by (auto simp: continued_def intro: advances_trans grown_then then_grown)

lemma has_prefix_not_EOF: "prefixParseFns T = Some f \<Longrightarrow> T \<noteq> EOF"
  by (cases T) simp_all

lemma has_infix_not_EOF: "infixParseFns T = Some f \<Longrightarrow> T \<noteq> EOF"
  by (cases T) simp_all

lemma parseExpression_step:
  fixes pf :: "string \<Rightarrow> 'f option"
  assumes loop: "\<And>prec left p. parser_ok src p \<Longrightarrow> 4 * remaining src p + 3 \<le> n \<Longrightarrow>
            returns (parseExpression_loop pf n prec left p) (continued src left p)"
    and pre: "\<And>p. parser_ok src p \<Longrightarrow> Type (currToken p) \<noteq> EOF \<Longrightarrow> 4 * remaining src p + 1 \<le> n \<Longrightarrow>
            returns (parsePrefixExpr pf n p) (parsed src p)"
    and grp: "\<And>p. parser_ok src p \<Longrightarrow> Type (currToken p) \<noteq> EOF \<Longrightarrow> 4 * remaining src p + 1 \<le> n \<Longrightarrow>
            returns (parseGroupedExpr pf n p) (parsed src p)"
    and ok: "parser_ok src p" and fuel: "4 * remaining src p + 4 \<le> Suc n"
  shows "returns (parseExpression pf (Suc n) prec p) (parsed src p)"
proof (cases "prefixParseFns (Type (currToken p))")
  case None
  then show ?thesis
    using ok by (simp add: noPrefixParseFnError_def parsed_def advances_error)
next
  case (Some fn)
  then have ne: "Type (currToken p) \<noteq> EOF" by (rule has_prefix_not_EOF)
  have h: "returns (case fn of
               Fn_parseIdentifier \<Rightarrow> Return (parseIdentifier p)
             | Fn_parseNumberLiteral \<Rightarrow> Return (parseNumberLiteral pf p)
             | Fn_parsePrefixExpr \<Rightarrow> parsePrefixExpr pf n p
             | Fn_parseGroupedExpr \<Rightarrow> parseGroupedExpr pf n p) (parsed src p)"
    using ok ne fuel by (cases fn) (simp_all add: parsed_leaf pre grp)
  show ?thesis
    unfolding parseExpression.simps Some option.case
  proof (rule returns_and_then[OF h], clarify)
    fix left :: "'f Expr option" and p1 assume p1: "parsed src p (left, p1)"
    then have "parser_ok src p1" "remaining src p1 \<le> remaining src p"
      by (simp_all add: parsed_def advances_def)
    then have "returns (parseExpression_loop pf n prec left p1) (continued src left p1)"
      using fuel by (intro loop) simp_all
    then show "returns (parseExpression_loop pf n prec left p1) (parsed src p)"
      by (rule returns_weaken) (rule parsed_then_continued[OF p1])
  qed
qed

lemma parseExpression_loop_step:
  fixes pf :: "string \<Rightarrow> 'f option"
  assumes loop: "\<And>prec left p. parser_ok src p \<Longrightarrow> 4 * remaining src p + 3 \<le> n \<Longrightarrow>
            returns (parseExpression_loop pf n prec left p) (continued src left p)"
    and inf: "\<And>left p. parser_ok src p \<Longrightarrow> Type (currToken p) \<noteq> EOF \<Longrightarrow> 4 * remaining src p + 1 \<le> n \<Longrightarrow>
            returns (parseInfixExpr pf n left p) (continued src left p)"
    and call: "\<And>left p. parser_ok src p \<Longrightarrow> Type (currToken p) \<noteq> EOF \<Longrightarrow> 4 * remaining src p + 2 \<le> n \<Longrightarrow>
            returns (parseCallExpr pf n left p) (continued src left p)"
    and ok: "parser_ok src p" and fuel: "4 * remaining src p + 3 \<le> Suc n"
  shows "returns (parseExpression_loop pf (Suc n) prec left p) (continued src left p)"
proof -
  have stay: "continued src left p (left, p)"
    using ok by (simp add: continued_def advances_refl)
  show ?thesis
  proof (cases "\<not> peekTokenIs Semicolon p \<and> prec < peekPrecedence p")
    case False
    then show ?thesis using stay by auto
  next
    case True
    show ?thesis
    proof (cases "infixParseFns (Type (peekToken p))")
      case None
      then show ?thesis using True stay by simp
    next
      case (Some fn)
      then have ne: "Type (peekToken p) \<noteq> EOF" by (rule has_infix_not_EOF)
      have nt: "returns (nextToken p) (\<lambda>p'. parser_ok src p' \<and> remaining src p' < remaining src p \<and>
           errors p' = errors p \<and> currToken p' = peekToken p)"
        using ok ne by (intro nextToken_ok) simp_all
      have "returns (and_then (nextToken p) (\<lambda>p1.
                and_then
                  (case fn of
                     Fn_parseInfixExpr \<Rightarrow> parseInfixExpr pf n left p1
                   | Fn_parseCallExpr \<Rightarrow> parseCallExpr pf n left p1)
                  (\<lambda>(left', p2). parseExpression_loop pf n prec left' p2))) (continued src left p)"
      proof (rule returns_and_then[OF nt], elim conjE)
        fix p1
        assume p1: "parser_ok src p1" "remaining src p1 < remaining src p" "errors p1 = errors p"
          "currToken p1 = peekToken p"
        have adv: "advances src p p1" using p1 by (intro advances_step)
        have h: "returns (case fn of
                     Fn_parseInfixExpr \<Rightarrow> parseInfixExpr pf n left p1
                   | Fn_parseCallExpr \<Rightarrow> parseCallExpr pf n left p1) (continued src left p1)"
          using p1 ne fuel by (cases fn) (simp_all add: inf call)
        show "returns (and_then
                  (case fn of
                     Fn_parseInfixExpr \<Rightarrow> parseInfixExpr pf n left p1
                   | Fn_parseCallExpr \<Rightarrow> parseCallExpr pf n left p1)
                  (\<lambda>(left', p2). parseExpression_loop pf n prec left' p2)) (continued src left p)"
        proof (rule returns_and_then[OF h], clarify)
          fix left' :: "'f Expr option" and p2 assume p2: "continued src left p1 (left', p2)"
          then have "parser_ok src p2" "remaining src p2 \<le> remaining src p1"
            by (simp_all add: continued_def advances_def)
          then have "returns (parseExpression_loop pf n prec left' p2) (continued src left' p2)"
            using fuel p1(2) by (intro loop) simp_all
          then show "returns (parseExpression_loop pf n prec left' p2) (continued src left p)"
            by (rule returns_weaken) (rule continued_then_continued[OF adv p2])
        qed
      qed
      then show ?thesis using True Some by simp
    qed
  qed
qed

lemma parsed_after: "advances src p p1 \<Longrightarrow> parsed src p1 r \<Longrightarrow> parsed src p r"
  unfolding parsed_def by (blast intro: advances_trans then_grown)

lemma continued_after: "advances src p p1 \<Longrightarrow> continued src left p1 r \<Longrightarrow> continued src left p r"
  unfolding continued_def by (blast intro: advances_trans then_grown)

lemma listed_after: "advances src p p1 \<Longrightarrow> listed src list p1 r \<Longrightarrow> listed src list p r"
  unfolding listed_def by (blast intro: advances_trans then_grown)

lemma parsed_closing:
  assumes "parsed src p1 (expr, p2)" "advances src p2 p3"
    "found \<or> strict_prefix (errors p2) (errors p3)"
  shows "parsed src p1 (if \<not> found then None else expr, p3)"
proof -
  from assms(1) have a12: "advances src p1 p2"
    and c: "complete expr \<or> strict_prefix (errors p1) (errors p2)"
    by (simp_all add: parsed_def)
  have a13: "advances src p1 p3" using a12 assms(2) by (rule advances_trans)
  show ?thesis
  proof (cases found)
    case True
    then show ?thesis using a13 c grown_then[OF _ assms(2)] by (auto simp: parsed_def)
  next
    case False
    then show ?thesis using a13 assms(3) then_grown[OF a12] by (auto simp: parsed_def)
  qed
qed

lemma parsePrefixExpr_step:
  fixes pf :: "string \<Rightarrow> 'f option"
  assumes expr: "\<And>prec p. parser_ok src p \<Longrightarrow> 4 * remaining src p + 4 \<le> n \<Longrightarrow>
            returns (parseExpression pf n prec p) (parsed src p)"
    and ok: "parser_ok src p" and ne: "Type (currToken p) \<noteq> EOF"
    and fuel: "4 * remaining src p + 1 \<le> Suc n"
  shows "returns (parsePrefixExpr pf (Suc n) p) (parsed src p)"
proof -
  have nt: "returns (nextToken p) (\<lambda>p'. parser_ok src p' \<and> remaining src p' < remaining src p \<and>
           errors p' = errors p \<and> currToken p' = peekToken p)"
    using ok ne by (intro nextToken_ok) simp_all
  show ?thesis
    unfolding parsePrefixExpr.simps
  proof (rule returns_and_then[OF nt], elim conjE)
    fix p1
    assume p1: "parser_ok src p1" "remaining src p1 < remaining src p" "errors p1 = errors p"
    have adv: "advances src p p1" using p1 by (intro advances_step)
    have e: "returns (parseExpression pf n PREFIX p1) (parsed src p1)"
      using p1 fuel by (intro expr) simp_all
    show "returns (and_then (parseExpression pf n PREFIX p1) (\<lambda>(right, p2).
            Return (Some (PrefixExpr (currToken p) (Literal (currToken p)) right), p2))) (parsed src p)"
    proof (rule returns_and_then[OF e], clarify)
      fix right :: "'f Expr option" and p2
      assume "parsed src p1 (right, p2)"
      from parsed_after[OF adv this]
      show "returns (Return (Some (PrefixExpr (currToken p) (Literal (currToken p)) right), p2)) (parsed src p)"
        by (simp add: parsed_def)
    qed
  qed
qed

lemma parseInfixExpr_step:
  fixes pf :: "string \<Rightarrow> 'f option"
  assumes expr: "\<And>prec p. parser_ok src p \<Longrightarrow> 4 * remaining src p + 4 \<le> n \<Longrightarrow>
            returns (parseExpression pf n prec p) (parsed src p)"
    and ok: "parser_ok src p" and ne: "Type (currToken p) \<noteq> EOF"
    and fuel: "4 * remaining src p + 1 \<le> Suc n"
  shows "returns (parseInfixExpr pf (Suc n) left p) (continued src left p)"
proof -
  have nt: "returns (nextToken p) (\<lambda>p'. parser_ok src p' \<and> remaining src p' < remaining src p \<and>
           errors p' = errors p \<and> currToken p' = peekToken p)"
    using ok ne by (intro nextToken_ok) simp_all
  show ?thesis
    unfolding parseInfixExpr.simps Let_def
  proof (rule returns_and_then[OF nt], elim conjE)
    fix p1
    assume p1: "parser_ok src p1" "remaining src p1 < remaining src p" "errors p1 = errors p"
    have adv: "advances src p p1" using p1 by (intro advances_step)
    have e: "returns (parseExpression pf n (currPrecedence p) p1) (parsed src p1)"
      using p1 fuel by (intro expr) simp_all
    show "returns (and_then (parseExpression pf n (currPrecedence p) p1) (\<lambda>(right, p2).
            Return (Some (InfixExpr (currToken p) left (Literal (currToken p)) right), p2)))
            (continued src left p)"
    proof (rule returns_and_then[OF e], clarify)
      fix right :: "'f Expr option" and p2
      assume "parsed src p1 (right, p2)"
      from parsed_after[OF adv this]
      show "returns (Return (Some (InfixExpr (currToken p) left (Literal (currToken p)) right), p2))
              (continued src left p)"
        by (auto simp: parsed_def continued_def)
    qed
  qed
qed

lemma parseGroupedExpr_step:
  fixes pf :: "string \<Rightarrow> 'f option"
  assumes expr: "\<And>prec p. parser_ok src p \<Longrightarrow> 4 * remaining src p + 4 \<le> n \<Longrightarrow>
            returns (parseExpression pf n prec p) (parsed src p)"
    and ok: "parser_ok src p" and ne: "Type (currToken p) \<noteq> EOF"
    and fuel: "4 * remaining src p + 1 \<le> Suc n"
  shows "returns (parseGroupedExpr pf (Suc n) p) (parsed src p)"
proof -
  have nt: "returns (nextToken p) (\<lambda>p'. parser_ok src p' \<and> remaining src p' < remaining src p \<and>
           errors p' = errors p \<and> currToken p' = peekToken p)"
    using ok ne by (intro nextToken_ok) simp_all
  show ?thesis
    unfolding parseGroupedExpr.simps
  proof (rule returns_and_then[OF nt], elim conjE)
    fix p1
    assume p1: "parser_ok src p1" "remaining src p1 < remaining src p" "errors p1 = errors p"
    have adv: "advances src p p1" using p1 by (intro advances_step)
    have e: "returns (parseExpression pf n LOWEST p1) (parsed src p1)"
      using p1 fuel by (intro expr) simp_all
    show "returns (and_then (parseExpression pf n LOWEST p1) (\<lambda>(expr, p2).
            and_then (expectPeek RightParen p2) (\<lambda>(found, p3).
            if \<not> found then Return (None, p3) else Return (expr, p3)))) (parsed src p)"
    proof (rule returns_and_then[OF e], clarify)
      fix expr :: "'f Expr option" and p2
      assume p2: "parsed src p1 (expr, p2)"
      then have ok2: "parser_ok src p2" by (simp add: parsed_def advances_def)
      show "returns (and_then (expectPeek RightParen p2) (\<lambda>(found, p3).
            if \<not> found then Return (None, p3) else Return (expr, p3))) (parsed src p)"
      proof (rule returns_and_then[OF expectPeek_ok[OF ok2]], simp, clarify)
        fix found p3
        assume "advances src p2 p3" "found \<or> strict_prefix (errors p2) (errors p3)"
        from parsed_closing[OF p2 this] have "parsed src p1 (if \<not> found then None else expr, p3)" .
        from parsed_after[OF adv this]
        show "returns (if \<not> found then Return (None, p3) else Return (expr, p3)) (parsed src p)"
          by (cases found) simp_all
      qed
    qed
  qed
qed

lemma listed_closing:
  assumes "listed src l0 p1 (list, p2)" "advances src p2 p3"
    "found \<or> strict_prefix (errors p2) (errors p3)"
  shows "listed src l0 p1 (if \<not> found then [] else list, p3)"
proof -
  from assms(1) have a12: "advances src p1 p2"
    and c: "list_all complete list \<or> \<not> list_all complete l0 \<or> strict_prefix (errors p1) (errors p2)"
    by (simp_all add: listed_def)
  have a13: "advances src p1 p3" using a12 assms(2) by (rule advances_trans)
  show ?thesis
  proof (cases found)
    case True
    then show ?thesis using a13 c grown_then[OF _ assms(2)] by (auto simp: listed_def)
  next
    case False
    then show ?thesis using a13 by (auto simp: listed_def)
  qed
qed

lemma parsed_then_listed:
  "parsed src p (expr, p1) \<Longrightarrow> listed src (list @ [expr]) p1 r \<Longrightarrow> listed src list p r"
  unfolding parsed_def listed_def by (auto intro: advances_trans grown_then then_grown)

lemma parseExpressionList_loop_step:
  fixes pf :: "string \<Rightarrow> 'f option"
  assumes expr: "\<And>prec p. parser_ok src p \<Longrightarrow> 4 * remaining src p + 4 \<le> n \<Longrightarrow>
            returns (parseExpression pf n prec p) (parsed src p)"
    and loop: "\<And>list p. parser_ok src p \<Longrightarrow> 4 * remaining src p + 1 \<le> n \<Longrightarrow>
            returns (parseExpressionList_loop pf n list p) (listed src list p)"
    and ok: "parser_ok src p" and fuel: "4 * remaining src p + 1 \<le> Suc n"
  shows "returns (parseExpressionList_loop pf (Suc n) list p) (listed src list p)"
proof (cases "peekTokenIs Comma p")
  case False
  then show ?thesis using ok by (simp add: listed_def advances_refl)
next
  case True
  then have ne: "Type (peekToken p) \<noteq> EOF" by (simp add: peekTokenIs_def)
  have nt: "returns (nextToken p) (\<lambda>p'. parser_ok src p' \<and> remaining src p' < remaining src p \<and>
           errors p' = errors p \<and> currToken p' = peekToken p)"
    using ok ne by (intro nextToken_ok) simp_all
  have "returns (and_then (nextToken p) (\<lambda>p1.
           and_then (nextToken p1) (\<lambda>p2.
           and_then (parseExpression pf n LOWEST p2) (\<lambda>(expr, p3).
           parseExpressionList_loop pf n (list @ [expr]) p3)))) (listed src list p)"
  proof (rule returns_and_then[OF nt], elim conjE)
    fix p1
    assume p1: "parser_ok src p1" "remaining src p1 < remaining src p" "errors p1 = errors p"
      "currToken p1 = peekToken p"
    have adv1: "advances src p p1" using p1 by (intro advances_step)
    have nt1: "returns (nextToken p1) (\<lambda>p'. parser_ok src p' \<and> remaining src p' < remaining src p1 \<and>
           errors p' = errors p1 \<and> currToken p' = peekToken p1)"
      using p1 ne by (intro nextToken_ok) simp_all
    show "returns (and_then (nextToken p1) (\<lambda>p2.
           and_then (parseExpression pf n LOWEST p2) (\<lambda>(expr, p3).
           parseExpressionList_loop pf n (list @ [expr]) p3))) (listed src list p)"
    proof (rule returns_and_then[OF nt1], elim conjE)
      fix p2
      assume p2: "parser_ok src p2" "remaining src p2 < remaining src p1" "errors p2 = errors p1"
      have adv2: "advances src p p2"
        using adv1 p2 by (blast intro: advances_trans advances_step)
      have e: "returns (parseExpression pf n LOWEST p2) (parsed src p2)"
        using p1 p2 fuel by (intro expr) simp_all
      show "returns (and_then (parseExpression pf n LOWEST p2) (\<lambda>(expr, p3).
           parseExpressionList_loop pf n (list @ [expr]) p3)) (listed src list p)"
      proof (rule returns_and_then[OF e], clarify)
        fix expr :: "'f Expr option" and p3
        assume p3: "parsed src p2 (expr, p3)"
        then have "parser_ok src p3" "remaining src p3 \<le> remaining src p2"
          by (simp_all add: parsed_def advances_def)
        then have "returns (parseExpressionList_loop pf n (list @ [expr]) p3) (listed src (list @ [expr]) p3)"
          using p1 p2 fuel by (intro loop) simp_all
        then show "returns (parseExpressionList_loop pf n (list @ [expr]) p3) (listed src list p)"
          by (rule returns_weaken) (blast intro: listed_after[OF adv2] parsed_then_listed[OF p3])
      qed
    qed
  qed
  then show ?thesis using True by simp
qed

lemma parseExpressionList_step:
  fixes pf :: "string \<Rightarrow> 'f option"
  assumes expr: "\<And>prec p. parser_ok src p \<Longrightarrow> 4 * remaining src p + 4 \<le> n \<Longrightarrow>
            returns (parseExpression pf n prec p) (parsed src p)"
    and loop: "\<And>list p. parser_ok src p \<Longrightarrow> 4 * remaining src p + 1 \<le> n \<Longrightarrow>
            returns (parseExpressionList_loop pf n list p) (listed src list p)"
    and ok: "parser_ok src p" and ne: "Type (currToken p) \<noteq> EOF" and e: "end' \<noteq> EOF"
    and fuel: "4 * remaining src p + 1 \<le> Suc n"
  shows "returns (parseExpressionList pf (Suc n) end' p) (listed src [] p)"
proof -
  have nt: "returns (nextToken p) (\<lambda>p'. parser_ok src p' \<and> remaining src p' < remaining src p \<and>
           errors p' = errors p \<and> currToken p' = peekToken p)"
    using ok ne by (intro nextToken_ok) simp_all
  show ?thesis
  proof (cases "peekTokenIs end' p")
    case True
    have "returns (and_then (nextToken p) (\<lambda>p1. Return ([], p1))) (listed src ([] :: 'f Expr option list) p)"
      by (rule returns_and_then[OF nt]) (auto simp: listed_def intro: advances_step)
    then show ?thesis using True by simp
  next
    case False
    have "returns (and_then (nextToken p) (\<lambda>p1.
        and_then (parseExpression pf n LOWEST p1) (\<lambda>(expr, p2).
        and_then (parseExpressionList_loop pf n [expr] p2) (\<lambda>(list, p3).
        and_then (expectPeek end' p3) (\<lambda>(found, p4).
        if \<not> found then Return ([], p4) else Return (list, p4)))))) (listed src [] p)"
    proof (rule returns_and_then[OF nt], elim conjE)
      fix p1
      assume p1: "parser_ok src p1" "remaining src p1 < remaining src p" "errors p1 = errors p"
      have adv: "advances src p p1" using p1 by (intro advances_step)
      have ex: "returns (parseExpression pf n LOWEST p1) (parsed src p1)"
        using p1 fuel by (intro expr) simp_all
      show "returns (and_then (parseExpression pf n LOWEST p1) (\<lambda>(expr, p2).
        and_then (parseExpressionList_loop pf n [expr] p2) (\<lambda>(list, p3).
        and_then (expectPeek end' p3) (\<lambda>(found, p4).
        if \<not> found then Return ([], p4) else Return (list, p4))))) (listed src [] p)"
      proof (rule returns_and_then[OF ex], clarify)
        fix expr :: "'f Expr option" and p2
        assume p2: "parsed src p1 (expr, p2)"
        then have ok2: "parser_ok src p2" "remaining src p2 \<le> remaining src p1"
          by (simp_all add: parsed_def advances_def)
        then have lp: "returns (parseExpressionList_loop pf n [expr] p2) (listed src [expr] p2)"
          using p1 fuel by (intro loop) simp_all
        show "returns (and_then (parseExpressionList_loop pf n [expr] p2) (\<lambda>(list, p3).
          and_then (expectPeek end' p3) (\<lambda>(found, p4).
          if \<not> found then Return ([], p4) else Return (list, p4)))) (listed src [] p)"
        proof (rule returns_and_then[OF lp], clarify)
          fix list :: "'f Expr option list" and p3
          assume p3: "listed src [expr] p2 (list, p3)"
          then have ok3: "parser_ok src p3" by (simp add: listed_def advances_def)
          have l13: "listed src [] p1 (list, p3)"
            using parsed_then_listed[of src p1 expr p2 "[]" "(list, p3)"] p2 p3 by simp
          show "returns (and_then (expectPeek end' p3) (\<lambda>(found, p4).
             if \<not> found then Return ([], p4) else Return (list, p4))) (listed src [] p)"
          proof (rule returns_and_then[OF expectPeek_ok[OF ok3 e]])
            fix x :: "bool \<times> Parser"
            assume x: "case x of (found, p') \<Rightarrow>
                         advances src p3 p' \<and> (found \<or> strict_prefix (errors p3) (errors p'))"
            obtain found p4 where xe: "x = (found, p4)" by (cases x)
            from x have "advances src p3 p4" "found \<or> strict_prefix (errors p3) (errors p4)"
              by (simp_all add: xe)
            from listed_closing[OF l13 this]
            have "listed src [] p1 (if \<not> found then [] else list, p4)" .
            from listed_after[OF adv this]
            show "returns (case x of (found, p4) \<Rightarrow>
                    if \<not> found then Return ([], p4) else Return (list, p4)) (listed src [] p)"
              unfolding xe by (cases found) simp_all
          qed
        qed
      qed
    qed
    then show ?thesis using False by simp
  qed
qed

lemma parseCallExpr_step:
  fixes pf :: "string \<Rightarrow> 'f option"
  assumes list: "\<And>end' p. parser_ok src p \<Longrightarrow> Type (currToken p) \<noteq> EOF \<Longrightarrow> end' \<noteq> EOF \<Longrightarrow>
            4 * remaining src p + 1 \<le> n \<Longrightarrow>
            returns (parseExpressionList pf n end' p) (listed src [] p)"
    and ok: "parser_ok src p" and ne: "Type (currToken p) \<noteq> EOF"
    and fuel: "4 * remaining src p + 2 \<le> Suc n"
  shows "returns (parseCallExpr pf (Suc n) function p) (continued src function p)"
proof -
  have l: "returns (parseExpressionList pf n RightParen p) (listed src [] p)"
    using ok ne fuel by (intro list) simp_all
  show ?thesis
    unfolding parseCallExpr.simps
    by (rule returns_and_then[OF l]) (auto simp: listed_def continued_def)
qed

lemma parser_total:
  fixes pf :: "string \<Rightarrow> 'f option"
  shows
   "(\<forall>prec p. parser_ok src p \<longrightarrow> 4 * remaining src p + 4 \<le> n \<longrightarrow>
        returns (parseExpression pf n prec p) (parsed src p)) \<and>
    (\<forall>prec left p. parser_ok src p \<longrightarrow> 4 * remaining src p + 3 \<le> n \<longrightarrow>
        returns (parseExpression_loop pf n prec left p) (continued src left p)) \<and>
    (\<forall>p. parser_ok src p \<longrightarrow> Type (currToken p) \<noteq> EOF \<longrightarrow> 4 * remaining src p + 1 \<le> n \<longrightarrow>
        returns (parsePrefixExpr pf n p) (parsed src p)) \<and>
    (\<forall>left p. parser_ok src p \<longrightarrow> Type (currToken p) \<noteq> EOF \<longrightarrow> 4 * remaining src p + 1 \<le> n \<longrightarrow>
        returns (parseInfixExpr pf n left p) (continued src left p)) \<and>
    (\<forall>p. parser_ok src p \<longrightarrow> Type (currToken p) \<noteq> EOF \<longrightarrow> 4 * remaining src p + 1 \<le> n \<longrightarrow>
        returns (parseGroupedExpr pf n p) (parsed src p)) \<and>
    (\<forall>end' p. parser_ok src p \<longrightarrow> Type (currToken p) \<noteq> EOF \<longrightarrow> end' \<noteq> EOF \<longrightarrow>
        4 * remaining src p + 1 \<le> n \<longrightarrow>
        returns (parseExpressionList pf n end' p) (listed src [] p)) \<and>
    (\<forall>list p. parser_ok src p \<longrightarrow> 4 * remaining src p + 1 \<le> n \<longrightarrow>
        returns (parseExpressionList_loop pf n list p) (listed src list p)) \<and>
    (\<forall>function p. parser_ok src p \<longrightarrow> Type (currToken p) \<noteq> EOF \<longrightarrow> 4 * remaining src p + 2 \<le> n \<longrightarrow>
        returns (parseCallExpr pf n function p) (continued src function p))"
proof (induction n)
  case 0
  show ?case by simp
next
  case (Suc n)
  then have expr: "\<And>prec p. parser_ok src p \<Longrightarrow> 4 * remaining src p + 4 \<le> n \<Longrightarrow>
        returns (parseExpression pf n prec p) (parsed src p)"
    and loop: "\<And>prec left p. parser_ok src p \<Longrightarrow> 4 * remaining src p + 3 \<le> n \<Longrightarrow>
        returns (parseExpression_loop pf n prec left p) (continued src left p)"
    and pre: "\<And>p. parser_ok src p \<Longrightarrow> Type (currToken p) \<noteq> EOF \<Longrightarrow> 4 * remaining src p + 1 \<le> n \<Longrightarrow>
        returns (parsePrefixExpr pf n p) (parsed src p)"
    and inf: "\<And>left p. parser_ok src p \<Longrightarrow> Type (currToken p) \<noteq> EOF \<Longrightarrow> 4 * remaining src p + 1 \<le> n \<Longrightarrow>
        returns (parseInfixExpr pf n left p) (continued src left p)"
    and grp: "\<And>p. parser_ok src p \<Longrightarrow> Type (currToken p) \<noteq> EOF \<Longrightarrow> 4 * remaining src p + 1 \<le> n \<Longrightarrow>
        returns (parseGroupedExpr pf n p) (parsed src p)"
    and lst: "\<And>end' p. parser_ok src p \<Longrightarrow> Type (currToken p) \<noteq> EOF \<Longrightarrow> end' \<noteq> EOF \<Longrightarrow>
        4 * remaining src p + 1 \<le> n \<Longrightarrow>
        returns (parseExpressionList pf n end' p) (listed src [] p)"
    and llp: "\<And>list p. parser_ok src p \<Longrightarrow> 4 * remaining src p + 1 \<le> n \<Longrightarrow>
        returns (parseExpressionList_loop pf n list p) (listed src list p)"
    and call: "\<And>function p. parser_ok src p \<Longrightarrow> Type (currToken p) \<noteq> EOF \<Longrightarrow> 4 * remaining src p + 2 \<le> n \<Longrightarrow>
        returns (parseCallExpr pf n function p) (continued src function p)"
    by blast+
  show ?case
  proof (intro conjI allI impI)
    fix prec p assume "parser_ok src p" "4 * remaining src p + 4 \<le> Suc n"
    then show "returns (parseExpression pf (Suc n) prec p) (parsed src p)"
      by (intro parseExpression_step loop pre grp) assumption+
  next
    fix prec left p assume "parser_ok src p" "4 * remaining src p + 3 \<le> Suc n"
    then show "returns (parseExpression_loop pf (Suc n) prec left p) (continued src left p)"
      by (intro parseExpression_loop_step loop inf call) assumption+
  next
    fix p assume "parser_ok src p" "Type (currToken p) \<noteq> EOF" "4 * remaining src p + 1 \<le> Suc n"
    then show "returns (parsePrefixExpr pf (Suc n) p) (parsed src p)"
      by (intro parsePrefixExpr_step expr) assumption+
  next
    fix left p assume "parser_ok src p" "Type (currToken p) \<noteq> EOF" "4 * remaining src p + 1 \<le> Suc n"
    then show "returns (parseInfixExpr pf (Suc n) left p) (continued src left p)"
      by (intro parseInfixExpr_step expr) assumption+
  next
    fix p assume "parser_ok src p" "Type (currToken p) \<noteq> EOF" "4 * remaining src p + 1 \<le> Suc n"
    then show "returns (parseGroupedExpr pf (Suc n) p) (parsed src p)"
      by (intro parseGroupedExpr_step expr) assumption+
  next
    fix end' p assume "parser_ok src p" "Type (currToken p) \<noteq> EOF" "end' \<noteq> EOF"
      "4 * remaining src p + 1 \<le> Suc n"
    then show "returns (parseExpressionList pf (Suc n) end' p) (listed src [] p)"
      by (intro parseExpressionList_step expr llp) assumption+
  next
    fix list p assume "parser_ok src p" "4 * remaining src p + 1 \<le> Suc n"
    then show "returns (parseExpressionList_loop pf (Suc n) list p) (listed src list p)"
      by (intro parseExpressionList_loop_step expr llp) assumption+
  next
    fix callee p assume "parser_ok src p" "Type (currToken p) \<noteq> EOF" "4 * remaining src p + 2 \<le> Suc n"
    then show "returns (parseCallExpr pf (Suc n) callee p) (continued src callee p)"
      by (intro parseCallExpr_step lst) assumption+
  qed
qed

lemma parseExpression_ok:
  "parser_ok src p \<Longrightarrow> 4 * remaining src p + 4 \<le> n \<Longrightarrow>
   returns (parseExpression pf n prec p) (parsed src p)"
  using parser_total[of src n pf] by blast

lemma parseStatement_ok:
  fixes pf :: "string \<Rightarrow> 'f option"
  assumes ok: "parser_ok src p" and fuel: "4 * remaining src p + 4 \<le> n"
  shows "returns (parseStatement pf n p)
           (\<lambda>(stmt, p'). advances src p p' \<and>
              (case stmt of None \<Rightarrow> True
               | Some s \<Rightarrow> Stmt_complete s \<or> strict_prefix (errors p) (errors p')))"
proof -
  have e: "returns (parseExpression pf n LOWEST p) (parsed src p)"
    using ok fuel by (rule parseExpression_ok)
  have "returns (parseExpressionStmt pf n p)
          (\<lambda>(stmt, p'). advances src p p' \<and> (Stmt_complete stmt \<or> strict_prefix (errors p) (errors p')))"
    unfolding parseExpressionStmt_def
  proof (rule returns_and_then[OF e], clarify)
    fix expr :: "'f Expr option" and p1
    assume p1: "parsed src p (expr, p1)"
    then have ok1: "parser_ok src p1" and a1: "advances src p p1"
      and c: "complete expr \<or> strict_prefix (errors p) (errors p1)"
      by (simp_all add: parsed_def advances_def)
    show "returns (if peekTokenIs Semicolon p1
             then and_then (nextToken p1) (\<lambda>p2. Return (ExpressionStmt (currToken p) expr, p2))
             else Return (ExpressionStmt (currToken p) expr, p1))
            (\<lambda>(stmt, p'). advances src p p' \<and> (Stmt_complete stmt \<or> strict_prefix (errors p) (errors p')))"
    proof (cases "peekTokenIs Semicolon p1")
      case False
      then show ?thesis using a1 c by simp
    next
      case True
      then have "Type (currToken p1) \<noteq> EOF \<or> Type (peekToken p1) \<noteq> EOF"
        by (simp add: peekTokenIs_def)
      from nextToken_ok[OF ok1 this]
      have "returns (and_then (nextToken p1) (\<lambda>p2. Return (ExpressionStmt (currToken p) expr, p2)))
            (\<lambda>(stmt, p'). advances src p p' \<and> (Stmt_complete stmt \<or> strict_prefix (errors p) (errors p')))"
      proof (rule returns_and_then, elim conjE)
        fix p2
        assume "parser_ok src p2" "remaining src p2 < remaining src p1" "errors p2 = errors p1"
        then have a2: "advances src p1 p2" by (intro advances_step)
        show "returns (Return (ExpressionStmt (currToken p) expr, p2))
            (\<lambda>(stmt, p'). advances src p p' \<and> (Stmt_complete stmt \<or> strict_prefix (errors p) (errors p')))"
          using advances_trans[OF a1 a2] c grown_then[OF _ a2] by auto
      qed
      then show ?thesis using True by simp
    qed
  qed
  then show ?thesis
    unfolding parseStatement_def by (rule returns_and_then) auto
qed

lemma ParseProgram_loop_ok:
  fixes pf :: "string \<Rightarrow> 'f option"
  shows "parser_ok src p \<Longrightarrow> 4 * remaining src p + 5 \<le> n \<Longrightarrow>
         returns (ParseProgram_loop pf n program p) (program_parsed src program p)"
proof (induction n arbitrary: p program)
  case 0
  then show ?case by simp
next
  case (Suc n)
  note ok = \<open>parser_ok src p\<close>
  show ?case
  proof (cases "currTokenIs EOF p")
    case True
    then show ?thesis using ok by (simp add: program_parsed_def parser_ok_def)
  next
    case False
    have st: "returns (parseStatement pf n p)
           (\<lambda>(stmt, p'). advances src p p' \<and>
              (case stmt of None \<Rightarrow> True
               | Some s \<Rightarrow> Stmt_complete s \<or> strict_prefix (errors p) (errors p')))"
      using ok Suc.prems(2) by (intro parseStatement_ok) simp_all
    have "returns (and_then (parseStatement pf n p) (\<lambda>(stmt, p1).
           and_then (nextToken p1) (\<lambda>p2.
           ParseProgram_loop pf n
             (case stmt of
                None \<Rightarrow> program
              | Some s \<Rightarrow> program\<lparr>Stmts := Stmts program @ [s]\<rparr>) p2)))
          (program_parsed src program p)"
    proof (rule returns_and_then[OF st], clarify)
      fix stmt :: "'f Stmt option" and p1
      assume a1: "advances src p p1"
        and c: "case stmt of None \<Rightarrow> True
                | Some s \<Rightarrow> Stmt_complete s \<or> strict_prefix (errors p) (errors p1)"
      let ?prog = "case stmt of None \<Rightarrow> program | Some s \<Rightarrow> program\<lparr>Stmts := Stmts program @ [s]\<rparr>"
      from a1 have ok1: "parser_ok src p1" and r1: "remaining src p1 \<le> remaining src p"
        and e1: "prefix (errors p) (errors p1)"
        by (simp_all add: advances_def)
      have pc: "list_all Stmt_complete (Stmts ?prog) \<or> \<not> list_all Stmt_complete (Stmts program) \<or>
                strict_prefix (errors p) (errors p1)"
        using c by (cases stmt) auto
      show "returns (and_then (nextToken p1) (\<lambda>p2. ParseProgram_loop pf n ?prog p2))
              (program_parsed src program p)"
      proof (rule returns_and_then[OF nextToken_any[OF ok1]], elim conjE)
        fix p2
        assume p2: "lexer p2 = lexer_at src (position (lexer p2))" "position (lexer p2) \<le> length src + 4"
          "errors p2 = errors p1" "currToken p2 = peekToken p1" "\<exists>k. tokens_read src p2 k"
          "0 < remaining src p1 \<longrightarrow> parser_ok src p2 \<and> remaining src p2 < remaining src p1"
        have "returns (ParseProgram_loop pf n ?prog p2) (program_parsed src ?prog p2)"
        proof (cases "0 < remaining src p1")
          case True
          with p2 have "parser_ok src p2" "remaining src p2 < remaining src p1" by simp_all
          then show ?thesis using Suc.prems(2) r1 by (intro Suc.IH) simp_all
        next
          case False
          then have "Type (peekToken p1) = EOF"
            using ok1 by (simp add: parser_ok_def remaining_def)
          then have "currTokenIs EOF p2" using p2 by (simp add: currTokenIs_def)
          moreover obtain m where "n = Suc m" using Suc.prems(2) by (cases n) simp_all
          ultimately show ?thesis using p2 by (simp add: program_parsed_def)
        qed
        then show "returns (ParseProgram_loop pf n ?prog p2) (program_parsed src program p)"
        proof (rule returns_weaken)
          fix r :: "'f Program \<times> Parser"
          assume r: "program_parsed src ?prog p2 r"
          then have e2: "prefix (errors p1) (errors (snd r))"
            using p2 by (simp add: program_parsed_def)
          have "prefix (errors p) (errors (snd r))"
            using e1 e2 by (rule prefix_order.order_trans)
          moreover have "list_all Stmt_complete (Stmts (fst r)) \<or> \<not> list_all Stmt_complete (Stmts program) \<or>
                 strict_prefix (errors p) (errors (snd r))"
            using r pc p2(3) e1 e2
            by (auto simp: program_parsed_def dest: prefix_order.less_le_trans prefix_order.le_less_trans)
          ultimately show "program_parsed src program p r"
            using r by (simp add: program_parsed_def)
        qed
      qed
    qed
    then show ?thesis using False by simp
  qed
qed

lemma parse_ok:
  fixes pf :: "string \<Rightarrow> 'f option"
  assumes fuel: "4 * length src + 9 \<le> n"
  shows "returns (parse pf n src)
           (\<lambda>(prog, p). lexer p = lexer_at src (position (lexer p)) \<and>
              position (lexer p) \<le> length src + 4 \<and> (\<exists>k. tokens_read src p k) \<and>
              (list_all Stmt_complete (Stmts prog) \<or> errors p \<noteq> []))"
proof -
  let ?z = "token NoType []"
  let ?p0 = "\<lparr>lexer = lexer_New src, currToken = ?z, peekToken = ?z, errors = []\<rparr>"
  have "tokens_read src ?p0 0" by (simp add: tokens_read_def)
  then have ok0: "parser_ok src ?p0" and r0: "remaining src ?p0 = length src + 3"
    by (auto simp: parser_ok_def remaining_def lexer_New_at)
  have n0: "returns (nextToken ?p0) (\<lambda>p'. parser_ok src p' \<and> remaining src p' < remaining src ?p0 \<and>
           errors p' = errors ?p0 \<and> currToken p' = peekToken ?p0)"
    by (rule nextToken_ok[OF ok0]) simp
  have new: "returns (parser_New (lexer_New src))
               (\<lambda>p. parser_ok src p \<and> remaining src p \<le> length src + 1 \<and> errors p = [])"
    unfolding parser_New_def
  proof (rule returns_and_then[OF n0], elim conjE)
    fix p1
    assume p1: "parser_ok src p1" "remaining src p1 < remaining src ?p0" "errors p1 = errors ?p0"
      "currToken p1 = peekToken ?p0"
    then have "Type (currToken p1) \<noteq> EOF \<or> Type (peekToken p1) \<noteq> EOF" by simp
    from nextToken_ok[OF p1(1) this]
    show "returns (nextToken p1) (\<lambda>p. parser_ok src p \<and> remaining src p \<le> length src + 1 \<and> errors p = [])"
      by (rule returns_weaken) (use p1 r0 in auto)
  qed
  show ?thesis
    unfolding parse_def
  proof (rule returns_and_then[OF new], elim conjE)
    fix p
    assume p: "parser_ok src p" "remaining src p \<le> length src + 1" "errors p = []"
    have "returns (ParseProgram_loop pf n \<lparr>Stmts = []\<rparr> p) (program_parsed src \<lparr>Stmts = []\<rparr> p)"
      using p fuel by (intro ParseProgram_loop_ok) simp_all
    then show "returns (ParseProgram pf n p)
           (\<lambda>(prog, p). lexer p = lexer_at src (position (lexer p)) \<and>
              position (lexer p) \<le> length src + 4 \<and> (\<exists>k. tokens_read src p k) \<and>
              (list_all Stmt_complete (Stmts prog) \<or> errors p \<noteq> []))"
      unfolding ParseProgram_def
      by (rule returns_weaken) (use p in \<open>auto simp: program_parsed_def\<close>)
  qed
qed



text \<open>
  Claim C9. From a state that satisfies the lexer invariant, \<open>NextToken\<close> returns and
  leaves \<open>position\<close> strictly larger, on exhausted input as well. For every source
  text and every bound of at least \<open>4 * len(src) + 9\<close> on the depth of the calls
  (a bound linear in the length), lexing and parsing returns a program; up to then the
  parser has called \<open>NextToken\<close> \<open>k\<close> times, with \<open>k\<close> at most \<open>len(src) + 4\<close>: every
  token is taken from the lexer once, and the lexer ends at most four symbols past the
  end of the text.
\<close>

theorem linear_termination:
  "(lexer_inv l \<longrightarrow>
      (\<exists>tok l'. NextToken l = Some (tok, l') \<and> position l < position l' \<and> source l' = source l)) \<and>
   (4 * length src + 9 \<le> n \<longrightarrow>
      (\<exists>prog p k. parse ParseFloat n src = Return (prog, p) \<and>
         tokens_read src p k \<and> k \<le> length src + 4 \<and>
         source (lexer p) = src \<and> position (lexer p) \<le> length src + 4))"
proof (intro conjI impI)
  assume "lexer_inv l"
  then have l: "l = lexer_at (source l) (position l)" by (simp add: lexer_inv_iff_at)
  from NextToken_at[of "source l" "position l"] obtain tok k where
    "NextToken (lexer_at (source l) (position l)) = Some (tok, lexer_at (source l) k)"
    "position l < k" by blast
  then have "NextToken l = Some (tok, lexer_at (source l) k) \<and>
      position l < position (lexer_at (source l) k) \<and> source (lexer_at (source l) k) = source l"
    using l by simp
  then show "\<exists>tok l'. NextToken l = Some (tok, l') \<and> position l < position l' \<and> source l' = source l"
    by blast
next
  assume "4 * length src + 9 \<le> n"
  from returnsD[OF parse_ok[OF this, of ParseFloat]] obtain prog p k where
    r: "parse ParseFloat n src = Return (prog, p)"
    and lx: "lexer p = lexer_at src (position (lexer p))"
    and pos: "position (lexer p) \<le> length src + 4" and k: "tokens_read src p k"
    by auto
  from tokens_read_bound[OF k] pos have "k \<le> length src + 4" by simp
  moreover have "source (lexer p) = src" by (subst lx) simp
  ultimately show "\<exists>prog p k. parse ParseFloat n src = Return (prog, p) \<and>
         tokens_read src p k \<and> k \<le> length src + 4 \<and>
         source (lexer p) = src \<and> position (lexer p) \<le> length src + 4"
    using r pos k by blast
qed

theorem linear_termination_witness:
  "lexer_inv (lexer_New ''a + b'') \<and>
   (\<exists>tok l'. NextToken (lexer_New ''a + b'') = Some (tok, l') \<and>
      position (lexer_New ''a + b'') < position l' \<and> source l' = source (lexer_New ''a + b'')) \<and>
   4 * length ''a + b'' + 9 \<le> (29::nat) \<and>
   (\<exists>prog p k. parse (\<lambda>s. Some (0::nat)) 29 ''a + b'' = Return (prog, p) \<and>
      tokens_read ''a + b'' p k \<and> k \<le> length ''a + b'' + 4 \<and>
      source (lexer p) = ''a + b'' \<and> position (lexer p) \<le> length ''a + b'' + 4)"
  using linear_termination[of "lexer_New ''a + b''" "''a + b''" 29 "\<lambda>s. Some (0::nat)"]
  by (simp add: lexer_New_def readChar_inv)

end
